theory Spec2Isabelle
  imports Main
begin

section \<open>Exceptions, requests and the remote service\<close>

text \<open>
  The script \<^verbatim>\<open>code/gene_to_id.py\<close> resolves gene symbols to Entrez Gene IDs. Every
  \<^verbatim>\<open>Exception\<close> that can reach the handler of the main loop is a value of \<open>exn\<close>:
  \<open>RequestException\<close> stands for \<^verbatim>\<open>requests.RequestException\<close> and its subclasses
  (connection errors, timeouts, the \<^verbatim>\<open>HTTPError\<close> of \<^verbatim>\<open>raise_for_status\<close>),
  \<open>RetryError\<close> for \<^verbatim>\<open>tenacity.RetryError\<close>, \<open>ParseError\<close> for the error of
  \<^verbatim>\<open>ET.fromstring\<close>, \<open>NameError\<close> for the read of an unbound variable.
\<close>

datatype exn =
    RequestException string
  | RetryError
  | ParseError
  | KeyError string
  | NameError string
  | OtherException string

fun is_RequestException :: "exn \<Rightarrow> bool" where
  "is_RequestException (RequestException m) = True"
| "is_RequestException e = False"

datatype 'a attempt = Returns 'a | Raises exn

datatype request = ESearch string | EFetch string

text \<open>
  What the network does is observed as a trace: \<open>HttpGet r n\<close> is the GET request of the
  \<open>n\<close>-th attempt of one call, \<open>Sleep d\<close> is a pause of \<open>d\<close> seconds between two attempts.
\<close>

datatype event = HttpGet request nat | Sleep nat

text \<open>
  The body of an ESearch response, as far as the script reads it: the value of
  \<^verbatim>\<open>response1.json()["esearchresult"]["idlist"]\<close>, or the exception that this
  expression raises.
\<close>

datatype esearch_response = EsearchResult "string list" | BadSearchBody exn

text \<open>
  The XML document of an EFetch response, as far as the script reads it: the result of
  \<^verbatim>\<open>root.find\<close> for the discontinue date (\<open>None\<close> when there is no such element) and
  the \<^verbatim>\<open>.text\<close> of every element that \<^verbatim>\<open>root.findall\<close> returns for the official
  symbol and for the aliases (\<open>None\<close> for an element without text).
\<close>

record gene_xml =
  Gene_track_discontinue_date :: "string option"
  Gene_ref_locus :: "string option list"
  Gene_ref_syn_E :: "string option list"

datatype efetch_response = Xml gene_xml | BadXml

text \<open>
  The remote service: the outcome of the \<open>n\<close>-th attempt (counted from 1) of the
  \<open>c\<close>-th call (counted from 0) that the run makes to \<^verbatim>\<open>call_esearch\<close> or
  \<^verbatim>\<open>call_efetch\<close>. The service may answer the same request differently at
  different times; it is \<open>unchanged\<close> when it does not.
\<close>

record remote =
  esearch_attempt :: "nat \<Rightarrow> string \<Rightarrow> nat \<Rightarrow> esearch_response attempt"
  efetch_attempt :: "nat \<Rightarrow> string \<Rightarrow> nat \<Rightarrow> efetch_response attempt"

definition unchanged :: "remote \<Rightarrow> bool" where
  "unchanged W \<longleftrightarrow>
     (\<forall>c. esearch_attempt W c = esearch_attempt W 0) \<and>
     (\<forall>c. efetch_attempt W c = efetch_attempt W 0)"

section \<open>The query client: bounded retry\<close>

text \<open>
  The decorator \<^verbatim>\<open>@retry(stop=stop_after_attempt(s), wait=wait_fixed(w),
  retry=retry_if_exception_type(requests.RequestException))\<close>: the decorated function
  is attempted; a result is returned; an exception that is not a
  \<^verbatim>\<open>RequestException\<close> is raised again at once; a \<^verbatim>\<open>RequestException\<close> at an
  attempt number that has reached \<open>s\<close> becomes \<^verbatim>\<open>RetryError\<close>; otherwise the call
  sleeps \<open>w\<close> seconds and the next attempt starts.
\<close>

function retry_from ::
  "nat \<Rightarrow> nat \<Rightarrow> request \<Rightarrow> (nat \<Rightarrow> 'a attempt) \<Rightarrow> nat \<Rightarrow> 'a attempt \<times> event list" where
  "retry_from s w req f n =
     (case f n of
        Returns v \<Rightarrow> (Returns v, [HttpGet req n])
      | Raises e \<Rightarrow>
          if is_RequestException e then
            (if s \<le> n then (Raises RetryError, [HttpGet req n])
             else (case retry_from s w req f (Suc n) of
                     (r, evs) \<Rightarrow> (r, HttpGet req n # Sleep w # evs)))
          else (Raises e, [HttpGet req n]))"
  by pat_completeness auto
termination
  by (relation "measure (\<lambda>(s, w, req, f, n). s - n)") auto

declare retry_from.simps [simp del]

definition retry :: "nat \<Rightarrow> nat \<Rightarrow> request \<Rightarrow> (nat \<Rightarrow> 'a attempt) \<Rightarrow> 'a attempt \<times> event list" where
  "retry s w req f = retry_from s w req f 1"

section \<open>The state of the run\<close>

datatype log_entry =
    LogGeneCount nat
  | LogNoGeneId string
  | LogUniqueGeneId string string
  | LogUniqueDiscontinued string string
  | LogCandidates string "string list"
  | LogChecking string string
  | LogDiscontinued string string
  | LogNoOfficialSymbol string string
  | LogManyOfficialSymbols string string
  | LogSuccess string string
  | LogFailed string exn

text \<open>
  The module-level state that one iteration of the main loop leaves to the next:
  the dictionary \<^verbatim>\<open>gene_id_dict\<close>, the lines appended to the three text files and to
  the log, and the loop variable \<^verbatim>\<open>check_gene_id\<close> (\<open>None\<close> while it is unbound).
  A line \<^verbatim>\<open>f"{gene}__{gene_id}"\<close> of the two files of discontinued identifiers is
  the pair of its two fields.
  The variables \<^verbatim>\<open>gene_id\<close> and \<^verbatim>\<open>candidate_gene_id\<close> are assigned in every
  iteration before they are read and are locals of the model. \<open>ncalls\<close> counts the calls
  to the query client, \<open>net\<close> is the trace of the network.
\<close>

record state =
  gene_id_dict :: "string \<rightharpoonup> string"
  genes_None :: "string list"
  genes_NCBI_Discontinued_1 :: "(string \<times> string) list"
  genes_NCBI_Discontinued_2 :: "(string \<times> string) list"
  log_file :: "log_entry list"
  check_gene_id :: "string option"
  ncalls :: nat
  net :: "event list"

definition write_log :: "log_entry \<Rightarrow> state \<Rightarrow> state" where
  "write_log l st = st\<lparr>log_file := log_file st @ [l]\<rparr>"

definition call_esearch :: "remote \<Rightarrow> string \<Rightarrow> state \<Rightarrow> esearch_response attempt \<times> state" where
  "call_esearch W gene_name st =
     (case retry 6 3 (ESearch gene_name) (esearch_attempt W (ncalls st) gene_name) of
        (r, evs) \<Rightarrow> (r, st\<lparr>ncalls := Suc (ncalls st), net := net st @ evs\<rparr>))"

definition call_efetch :: "remote \<Rightarrow> string \<Rightarrow> state \<Rightarrow> efetch_response attempt \<times> state" where
  "call_efetch W gene_id st =
     (case retry 6 3 (EFetch gene_id) (efetch_attempt W (ncalls st) gene_id) of
        (r, evs) \<Rightarrow> (r, st\<lparr>ncalls := Suc (ncalls st), net := net st @ evs\<rparr>))"

definition append_None :: "string \<Rightarrow> state \<Rightarrow> state" where
  "append_None line st = st\<lparr>genes_None := genes_None st @ [line]\<rparr>"

definition append_Discontinued_1 :: "string \<times> string \<Rightarrow> state \<Rightarrow> state" where
  "append_Discontinued_1 line st =
     st\<lparr>genes_NCBI_Discontinued_1 := genes_NCBI_Discontinued_1 st @ [line]\<rparr>"

definition append_Discontinued_2 :: "string \<times> string \<Rightarrow> state \<Rightarrow> state" where
  "append_Discontinued_2 line st =
     st\<lparr>genes_NCBI_Discontinued_2 := genes_NCBI_Discontinued_2 st @ [line]\<rparr>"

section \<open>The resolver\<close>

text \<open>
  Lines 189 to 206: the value of \<^verbatim>\<open>official_symbol\<close> that line 208 compares with the
  gene. Without a locus element it is the empty list, and with a locus element
  without text it is \<^verbatim>\<open>None\<close>; both differ from every string, and both are \<open>None\<close>
  here. With several locus elements it is the text of the first.
\<close>

definition official_symbol :: "string option list \<Rightarrow> string option" where
  "official_symbol texts = (case texts of [] \<Rightarrow> None | t # ts \<Rightarrow> t)"

definition log_official :: "string \<Rightarrow> string \<Rightarrow> string option list \<Rightarrow> state \<Rightarrow> state" where
  "log_official gene c texts st =
     (if texts = [] then write_log (LogNoOfficialSymbol gene c) st
      else if length texts > 1 then write_log (LogManyOfficialSymbols gene c) st
      else st)"

text \<open>
  Lines 154 to 214, the loop \<^verbatim>\<open>for check_gene_id in ids_list\<close>, with the locals
  \<^verbatim>\<open>gene_id\<close> and \<^verbatim>\<open>candidate_gene_id\<close>. It ends with \<open>Inl e\<close> when an exception
  \<open>e\<close> leaves it, and with \<open>Inr\<close> of the two locals when the list is exhausted or at
  the \<^verbatim>\<open>break\<close> of line 211.
\<close>

fun check_loop ::
  "remote \<Rightarrow> string \<Rightarrow> string list \<Rightarrow> string \<Rightarrow> string list \<Rightarrow> state \<Rightarrow>
   (exn + string \<times> string list) \<times> state" where
  "check_loop W gene [] gene_id candidate_gene_id st = (Inr (gene_id, candidate_gene_id), st)"
| "check_loop W gene (c # ids) gene_id candidate_gene_id st =
     (case call_efetch W c (st\<lparr>check_gene_id := Some c\<rparr>) of
        (Raises e, st1) \<Rightarrow> (Inl e, st1)
      | (Returns BadXml, st1) \<Rightarrow> (Inl ParseError, st1)
      | (Returns (Xml root), st1) \<Rightarrow>
          (case Gene_track_discontinue_date root of
             Some d \<Rightarrow>
               check_loop W gene ids gene_id candidate_gene_id
                 (append_Discontinued_2 (gene, c)
                    (write_log (LogDiscontinued gene c) st1))
           | None \<Rightarrow>
               (let st2 = log_official gene c (Gene_ref_locus root)
                            (write_log (LogChecking gene c) st1)
                in if Some gene = official_symbol (Gene_ref_locus root)
                   then (Inr (c, []), st2)
                   else check_loop W gene ids gene_id
                          (if Some gene \<in> set (Gene_ref_syn_E root)
                           then candidate_gene_id @ [c] else candidate_gene_id)
                          st2)))"

text \<open>
  Lines 216 to 226: the identifier is the first alias candidate when there is one, and
  is stored in the dictionary.
\<close>

definition store :: "string \<Rightarrow> string \<Rightarrow> string list \<Rightarrow> state \<Rightarrow> state" where
  "store gene gene_id candidate_gene_id st =
     (let gene_id' = (case candidate_gene_id of [] \<Rightarrow> gene_id | a # as \<Rightarrow> a)
      in write_log (LogSuccess gene gene_id')
           (st\<lparr>gene_id_dict := (gene_id_dict st)(gene \<mapsto> gene_id')\<rparr>))"

text \<open>
  How the body of the \<^verbatim>\<open>try\<close> statement ends: at its last line, at a
  \<^verbatim>\<open>continue\<close>, or with an exception.
\<close>

datatype flow = Normal | Continue | Raise exn

text \<open>
  Lines 111 to 226. The three cases of the list are \<^verbatim>\<open>len(ids_list) == 0\<close>,
  \<^verbatim>\<open>== 1\<close> and \<^verbatim>\<open>> 1\<close>. Line 140 reads \<^verbatim>\<open>check_gene_id\<close> while it formats
  the log message: when the variable is unbound, the read raises \<^verbatim>\<open>NameError\<close>
  before anything is written.
\<close>

definition try_body :: "remote \<Rightarrow> string \<Rightarrow> state \<Rightarrow> flow \<times> state" where
  "try_body W gene st =
     (case call_esearch W gene st of
        (Raises e, st1) \<Rightarrow> (Raise e, st1)
      | (Returns (BadSearchBody e), st1) \<Rightarrow> (Raise e, st1)
      | (Returns (EsearchResult ids_list), st1) \<Rightarrow>
          (case ids_list of
             [] \<Rightarrow> (Continue, append_None gene (write_log (LogNoGeneId gene) st1))
           | [gene_id] \<Rightarrow>
               (case call_efetch W gene_id st1 of
                  (Raises e, st2) \<Rightarrow> (Raise e, st2)
                | (Returns BadXml, st2) \<Rightarrow> (Raise ParseError, st2)
                | (Returns (Xml root), st2) \<Rightarrow>
                    (case Gene_track_discontinue_date root of
                       None \<Rightarrow>
                         (Normal, store gene gene_id []
                                    (write_log (LogUniqueGeneId gene gene_id) st2))
                     | Some d \<Rightarrow>
                         (case check_gene_id st2 of
                            None \<Rightarrow> (Raise (NameError ''check_gene_id''), st2)
                          | Some stale \<Rightarrow>
                              (Continue,
                               append_Discontinued_1 (gene, gene_id)
                                 (write_log (LogUniqueDiscontinued gene stale) st2)))))
           | id0 # id1 # others \<Rightarrow>
               (case check_loop W gene ids_list id0 []
                       (write_log (LogCandidates gene ids_list) st1) of
                  (Inl e, st2) \<Rightarrow> (Raise e, st2)
                | (Inr (gene_id, candidate_gene_id), st2) \<Rightarrow>
                    (Normal, store gene gene_id candidate_gene_id st2))))"

text \<open>
  Lines 109 to 233, one iteration of \<^verbatim>\<open>for gene in tqdm(all_genes)\<close>: the handler
  \<^verbatim>\<open>except Exception as e\<close> writes the failure to the log and the gene to
  \<^verbatim>\<open>genes_None.txt\<close>.
\<close>

definition iteration :: "remote \<Rightarrow> string \<Rightarrow> state \<Rightarrow> state" where
  "iteration W gene st =
     (case try_body W gene st of
        (Raise e, st') \<Rightarrow> append_None gene (write_log (LogFailed gene e) st')
      | (Normal, st') \<Rightarrow> st'
      | (Continue, st') \<Rightarrow> st')"

fun for_genes :: "remote \<Rightarrow> string list \<Rightarrow> state \<Rightarrow> state" where
  "for_genes W [] st = st"
| "for_genes W (gene # genes) st = for_genes W genes (iteration W gene st)"

text \<open>
  Lines 99 to 107: the state before the loop, in a working directory without the three
  text files and without a log.
\<close>

definition initial :: "string list \<Rightarrow> state" where
  "initial all_genes =
     \<lparr>gene_id_dict = Map.empty, genes_None = [], genes_NCBI_Discontinued_1 = [],
      genes_NCBI_Discontinued_2 = [], log_file = [LogGeneCount (length all_genes)],
      check_gene_id = None, ncalls = 0, net = []\<rparr>"

definition main :: "remote \<Rightarrow> string list \<Rightarrow> state" where
  "main W all_genes = for_genes W all_genes (initial all_genes)"

section \<open>Notions of the specification\<close>

text \<open>
  \<open>attempts req w k n\<close> is the trace of \<open>k\<close> attempts numbered from \<open>n\<close> with a pause of
  \<open>w\<close> between two of them.
\<close>

fun attempts :: "request \<Rightarrow> nat \<Rightarrow> nat \<Rightarrow> nat \<Rightarrow> event list" where
  "attempts req w 0 n = []"
| "attempts req w (Suc 0) n = [HttpGet req n]"
| "attempts req w (Suc (Suc k)) n = HttpGet req n # Sleep w # attempts req w (Suc k) (Suc n)"

fun transient :: "'a attempt \<Rightarrow> bool" where
  "transient (Raises e) = is_RequestException e"
| "transient (Returns v) = False"

fun fatal :: "'a attempt \<Rightarrow> bool" where
  "fatal (Raises e) = (\<not> is_RequestException e)"
| "fatal (Returns v) = False"

text \<open>
  The identifiers whose records the run has fetched, and the symbols it has searched,
  in order: the first attempts of the calls in a trace.
\<close>

definition fetched_ids :: "event list \<Rightarrow> string list" where
  "fetched_ids evs =
     concat (map (\<lambda>e. case e of HttpGet (EFetch i) n \<Rightarrow> if n = 1 then [i] else [] | _ \<Rightarrow> []) evs)"

definition searched :: "event list \<Rightarrow> string list" where
  "searched evs =
     concat (map (\<lambda>e. case e of HttpGet (ESearch g) n \<Rightarrow> if n = 1 then [g] else [] | _ \<Rightarrow> []) evs)"

text \<open>
  The candidate list that call number \<open>c\<close> yields when it searches for a symbol, and
  the record that call number \<open>c\<close> yields when it fetches an identifier; \<open>None\<close> when
  the call or the parse of its response fails.
\<close>

definition search_at :: "remote \<Rightarrow> nat \<Rightarrow> string \<Rightarrow> string list option" where
  "search_at W c g =
     (case fst (retry 6 3 (ESearch g) (esearch_attempt W c g)) of
        Returns (EsearchResult ids) \<Rightarrow> Some ids
      | _ \<Rightarrow> None)"

definition record_at :: "remote \<Rightarrow> nat \<Rightarrow> string \<Rightarrow> gene_xml option" where
  "record_at W c i =
     (case fst (retry 6 3 (EFetch i) (efetch_attempt W c i)) of
        Returns (Xml root) \<Rightarrow> Some root
      | _ \<Rightarrow> None)"

text \<open>The three attributes of a gene record.\<close>

definition discontinued :: "gene_xml \<Rightarrow> bool" where
  "discontinued root \<longleftrightarrow> Gene_track_discontinue_date root \<noteq> None"

definition official :: "gene_xml \<Rightarrow> string option" where
  "official root = official_symbol (Gene_ref_locus root)"

definition has_alias :: "string \<Rightarrow> gene_xml \<Rightarrow> bool" where
  "has_alias gene root \<longleftrightarrow> Some gene \<in> set (Gene_ref_syn_E root)"

text \<open>
  The record of the candidate at rank \<open>j\<close> (counted from 0) in a resolution that starts
  in state \<open>st\<close>: the search is call number \<open>ncalls st\<close>, and the loop fetches the
  candidate at rank \<open>j\<close> with the call after the search and the \<open>j\<close> earlier fetches.
\<close>

definition candidate_record :: "remote \<Rightarrow> state \<Rightarrow> string list \<Rightarrow> nat \<Rightarrow> gene_xml option" where
  "candidate_record W st ids j = record_at W (ncalls st + 1 + j) (ids ! j)"

text \<open>
  The candidates, in order, that are not discontinued and list the symbol among their
  aliases, when the first of them is fetched by call number \<open>c\<close>.
\<close>

fun alias_matches :: "remote \<Rightarrow> string \<Rightarrow> nat \<Rightarrow> string list \<Rightarrow> string list" where
  "alias_matches W gene c [] = []"
| "alias_matches W gene c (i # ids) =
     (case record_at W c i of
        None \<Rightarrow> alias_matches W gene (Suc c) ids
      | Some root \<Rightarrow>
          if \<not> discontinued root \<and> has_alias gene root
          then i # alias_matches W gene (Suc c) ids
          else alias_matches W gene (Suc c) ids)"

text \<open>
  The symbols that the run has recorded as unresolved: the lines of
  \<^verbatim>\<open>genes_None.txt\<close> and the symbols of the lines of
  \<^verbatim>\<open>genes_NCBI_Discontinued_1.txt\<close>.
\<close>

definition unresolved :: "state \<Rightarrow> string set" where
  "unresolved st = set (genes_None st) \<union> fst ` set (genes_NCBI_Discontinued_1 st)"

text \<open>
  Whether some symbol has entered the loop over several candidates: line 148 writes
  the candidate list to the log just before that loop.
\<close>

fun is_LogCandidates :: "log_entry \<Rightarrow> bool" where
  "is_LogCandidates (LogCandidates g ids) = True"
| "is_LogCandidates l = False"

definition entered_many :: "state \<Rightarrow> bool" where
  "entered_many st \<longleftrightarrow> list_ex is_LogCandidates (log_file st)"

text \<open>
  Whether an unchanged service lets a symbol be resolved: the body of the \<^verbatim>\<open>try\<close>
  statement reaches its last line in a fresh run.
\<close>

definition resolves :: "remote \<Rightarrow> string \<Rightarrow> bool" where
  "resolves W gene \<longleftrightarrow> fst (try_body W gene (initial [])) = Normal"

section \<open>Example services\<close>

text \<open>
  A service that is down for the symbol \<open>TP53\<close> and the identifier \<open>7157\<close>, and that
  answers every other request with two timeouts and then with an exception that is
  not a \<^verbatim>\<open>RequestException\<close>.
\<close>

definition W_down :: remote where
  "W_down =
     \<lparr>esearch_attempt = (\<lambda>c g n.
        if g = ''TP53'' \<or> n < 3 then Raises (RequestException ''timeout'')
        else Raises (OtherException ''ValueError'')),
      efetch_attempt = (\<lambda>c i n.
        if i = ''7157'' \<or> n < 3 then Raises (RequestException ''timeout'')
        else Raises (OtherException ''ValueError''))\<rparr>"

text \<open>
  A service that answers every request at the first attempt and always in the same
  way. The symbol \<open>X\<close> has three candidates, the second with the official symbol \<open>X\<close>
  and the first with the alias \<open>X\<close>; \<open>Q\<close> has two candidates without any match, the
  first discontinued; \<open>A\<close> has three candidates, the second and third with the alias
  \<open>A\<close>; \<open>K\<close> has two candidates, the first with the alias \<open>K\<close>, the second
  discontinued with the official symbol \<open>K\<close>; \<open>D\<close> has one candidate, discontinued;
  \<open>TP53\<close> has one candidate; every other symbol has none.
\<close>

definition ncbi_idlist :: "string \<Rightarrow> string list" where
  "ncbi_idlist g =
     (if g = ''X'' then [''10'', ''20'', ''30'']
      else if g = ''Q'' then [''40'', ''50'']
      else if g = ''A'' then [''60'', ''70'', ''80'']
      else if g = ''K'' then [''11'', ''12'']
      else if g = ''D'' then [''90'']
      else if g = ''TP53'' then [''7157'']
      else [])"

definition gene_record :: "bool \<Rightarrow> string \<Rightarrow> string list \<Rightarrow> gene_xml" where
  "gene_record disc locus syns =
     \<lparr>Gene_track_discontinue_date = (if disc then Some ''2008-08-01'' else None),
      Gene_ref_locus = [Some locus], Gene_ref_syn_E = map Some syns\<rparr>"

definition ncbi_record :: "string \<Rightarrow> gene_xml" where
  "ncbi_record i =
     (if i = ''10'' then gene_record False ''Y'' [''X'']
      else if i = ''20'' then gene_record False ''X'' []
      else if i = ''30'' then gene_record False ''Z'' []
      else if i = ''40'' then gene_record True ''OLD'' []
      else if i = ''50'' then gene_record False ''R'' []
      else if i = ''60'' then gene_record False ''B'' []
      else if i = ''70'' then gene_record False ''C'' [''A'']
      else if i = ''80'' then gene_record False ''E'' [''A'', ''F'']
      else if i = ''11'' then gene_record False ''L'' [''K'']
      else if i = ''12'' then gene_record True ''K'' []
      else if i = ''90'' then gene_record True ''D'' []
      else gene_record False ''TP53'' [''P53''])"

definition W_ncbi :: remote where
  "W_ncbi =
     \<lparr>esearch_attempt = (\<lambda>c g n. Returns (EsearchResult (ncbi_idlist g))),
      efetch_attempt = (\<lambda>c i n. Returns (Xml (ncbi_record i)))\<rparr>"

text \<open>
  The service of \<open>W_ncbi\<close> with an outage: from the third call of the run on, every
  attempt times out.
\<close>

definition W_outage :: remote where
  "W_outage =
     \<lparr>esearch_attempt = (\<lambda>c g n.
        if c < 2 then Returns (EsearchResult (ncbi_idlist g))
        else Raises (RequestException ''timeout'')),
      efetch_attempt = (\<lambda>c i n.
        if c < 2 then Returns (Xml (ncbi_record i))
        else Raises (RequestException ''timeout''))\<rparr>"

section \<open>The retry policy\<close>

lemma retry_from_Returns:
  "f n = Returns v \<Longrightarrow> retry_from s w req f n = (Returns v, [HttpGet req n])"
  by (subst retry_from.simps) simp

lemma retry_from_other:
  "f n = Raises e \<Longrightarrow> \<not> is_RequestException e \<Longrightarrow>
   retry_from s w req f n = (Raises e, [HttpGet req n])"
  by (subst retry_from.simps) simp

lemma retry_from_last:
  "f n = Raises e \<Longrightarrow> is_RequestException e \<Longrightarrow> s \<le> n \<Longrightarrow>
   retry_from s w req f n = (Raises RetryError, [HttpGet req n])"
  by (subst retry_from.simps) simp

lemma retry_from_again:
  "f n = Raises e \<Longrightarrow> is_RequestException e \<Longrightarrow> n < s \<Longrightarrow>
   retry_from s w req f n =
     (fst (retry_from s w req f (Suc n)), HttpGet req n # Sleep w # snd (retry_from s w req f (Suc n)))"
  by (subst retry_from.simps) (simp add: split_beta)

lemma retry_from_exhausted:
  "\<forall>i. n \<le> i \<longrightarrow> transient (f i) \<Longrightarrow> n \<le> s \<Longrightarrow> 0 < s \<Longrightarrow>
   retry_from s w req f n = (Raises RetryError, attempts req w (Suc (s - n)) n)"
proof (induction "s - n" arbitrary: n)
  case 0
  then have "transient (f n)" "s \<le> n" by auto
  then show ?case
    using 0 by (cases "f n") (auto simp: retry_from_last)
next
  case (Suc d)
  then have t: "transient (f n)" and lt: "n < s" by auto
  have "retry_from s w req f (Suc n) = (Raises RetryError, attempts req w (Suc (s - Suc n)) (Suc n))"
    using Suc by (intro Suc.hyps(1)) auto
  moreover have "Suc (s - n) = Suc (Suc (s - Suc n))" using lt by simp
  ultimately show ?case
    using t lt by (cases "f n") (auto simp: retry_from_again)
qed

lemma retry_from_fatal:
  "\<forall>i. n \<le> i \<and> i < m \<longrightarrow> transient (f i) \<Longrightarrow> f m = Raises e \<Longrightarrow> \<not> is_RequestException e \<Longrightarrow>
   n \<le> m \<Longrightarrow> m \<le> s \<Longrightarrow>
   retry_from s w req f n = (Raises e, attempts req w (Suc (m - n)) n)"
proof (induction "m - n" arbitrary: n)
  case 0
  then have "n = m" by simp
  then show ?case using 0 by (simp add: retry_from_other)
next
  case (Suc d)
  then have t: "transient (f n)" and lt: "n < m" by auto
  have "retry_from s w req f (Suc n) = (Raises e, attempts req w (Suc (m - Suc n)) (Suc n))"
    using Suc by (intro Suc.hyps(1)) auto
  moreover have "Suc (m - n) = Suc (Suc (m - Suc n))" using lt by simp
  ultimately show ?case
    using t lt Suc.prems by (cases "f n") (auto simp: retry_from_again)
qed

section \<open>C5: the retry policy of the two calls\<close>

text \<open>
  C5. A call to \<^verbatim>\<open>call_esearch\<close> or \<^verbatim>\<open>call_efetch\<close> whose every attempt fails
  with a \<^verbatim>\<open>RequestException\<close> makes exactly six GET requests, sleeps 3 seconds
  between two consecutive ones (five pauses, none after the last attempt) and then
  raises \<^verbatim>\<open>RetryError\<close>. A call whose attempt \<open>m\<close> raises an exception outside
  that class, after \<open>m - 1\<close> transient failures, raises this exception itself after
  exactly \<open>m\<close> requests: with \<open>m = 1\<close> there is one request and no pause.
\<close>

theorem retry_policy:
  "((\<forall>n. transient (esearch_attempt W (ncalls st) g n)) \<longrightarrow>
      fst (call_esearch W g st) = Raises RetryError \<and>
      ncalls (snd (call_esearch W g st)) = Suc (ncalls st) \<and>
      net (snd (call_esearch W g st)) = net st @
        [HttpGet (ESearch g) 1, Sleep 3, HttpGet (ESearch g) 2, Sleep 3,
         HttpGet (ESearch g) 3, Sleep 3, HttpGet (ESearch g) 4, Sleep 3,
         HttpGet (ESearch g) 5, Sleep 3, HttpGet (ESearch g) 6]) \<and>
   ((\<forall>n. transient (efetch_attempt W (ncalls st) i n)) \<longrightarrow>
      fst (call_efetch W i st) = Raises RetryError \<and>
      ncalls (snd (call_efetch W i st)) = Suc (ncalls st) \<and>
      net (snd (call_efetch W i st)) = net st @
        [HttpGet (EFetch i) 1, Sleep 3, HttpGet (EFetch i) 2, Sleep 3,
         HttpGet (EFetch i) 3, Sleep 3, HttpGet (EFetch i) 4, Sleep 3,
         HttpGet (EFetch i) 5, Sleep 3, HttpGet (EFetch i) 6]) \<and>
   (1 \<le> m \<and> m \<le> 6 \<and> (\<forall>n. 1 \<le> n \<and> n < m \<longrightarrow> transient (esearch_attempt W (ncalls st) g' n)) \<and>
    fatal (esearch_attempt W (ncalls st) g' m) \<longrightarrow>
      fst (call_esearch W g' st) = esearch_attempt W (ncalls st) g' m \<and>
      net (snd (call_esearch W g' st)) = net st @ attempts (ESearch g') 3 m 1) \<and>
   (1 \<le> m' \<and> m' \<le> 6 \<and> (\<forall>n. 1 \<le> n \<and> n < m' \<longrightarrow> transient (efetch_attempt W (ncalls st) i' n)) \<and>
    fatal (efetch_attempt W (ncalls st) i' m') \<longrightarrow>
      fst (call_efetch W i' st) = efetch_attempt W (ncalls st) i' m' \<and>
      net (snd (call_efetch W i' st)) = net st @ attempts (EFetch i') 3 m' 1)"
proof -
  have six: "attempts req 3 (Suc (6 - 1)) 1 =
      [HttpGet req 1, Sleep 3, HttpGet req 2, Sleep 3, HttpGet req 3, Sleep 3,
       HttpGet req 4, Sleep 3, HttpGet req 5, Sleep 3, HttpGet req 6]" for req
    by (simp add: eval_nat_numeral)
  have ex: "retry 6 3 req f = (Raises RetryError,
      [HttpGet req 1, Sleep 3, HttpGet req 2, Sleep 3, HttpGet req 3, Sleep 3,
       HttpGet req 4, Sleep 3, HttpGet req 5, Sleep 3, HttpGet req 6])"
    if "\<forall>n. transient (f n)" for req and f :: "nat \<Rightarrow> 'b attempt"
    unfolding retry_def using retry_from_exhausted [of 1 f 6 3 req] that six [of req] by simp
  have ft: "retry 6 3 req f = (f k, attempts req 3 k 1)"
    if k1: "1 \<le> k" and k6: "k \<le> 6"
      and tr: "\<forall>n. 1 \<le> n \<and> n < k \<longrightarrow> transient (f n)" and fa: "fatal (f k)"
    for req k and f :: "nat \<Rightarrow> 'b attempt"
  proof -
    obtain e where e: "f k = Raises e" "\<not> is_RequestException e"
      using fa by (cases "f k") auto
    have "Suc (k - 1) = k" using k1 by simp
    then show ?thesis
      unfolding retry_def using retry_from_fatal [of 1 k f e 6 3 req] k1 k6 tr e by simp
  qed
  have a: "(\<forall>n. transient (esearch_attempt W (ncalls st) g n)) \<longrightarrow>
      fst (call_esearch W g st) = Raises RetryError \<and>
      ncalls (snd (call_esearch W g st)) = Suc (ncalls st) \<and>
      net (snd (call_esearch W g st)) = net st @
        [HttpGet (ESearch g) 1, Sleep 3, HttpGet (ESearch g) 2, Sleep 3,
         HttpGet (ESearch g) 3, Sleep 3, HttpGet (ESearch g) 4, Sleep 3,
         HttpGet (ESearch g) 5, Sleep 3, HttpGet (ESearch g) 6]"
    by (simp add: call_esearch_def ex)
  have b: "(\<forall>n. transient (efetch_attempt W (ncalls st) i n)) \<longrightarrow>
      fst (call_efetch W i st) = Raises RetryError \<and>
      ncalls (snd (call_efetch W i st)) = Suc (ncalls st) \<and>
      net (snd (call_efetch W i st)) = net st @
        [HttpGet (EFetch i) 1, Sleep 3, HttpGet (EFetch i) 2, Sleep 3,
         HttpGet (EFetch i) 3, Sleep 3, HttpGet (EFetch i) 4, Sleep 3,
         HttpGet (EFetch i) 5, Sleep 3, HttpGet (EFetch i) 6]"
    by (simp add: call_efetch_def ex)
  have c: "fst (call_esearch W g' st) = esearch_attempt W (ncalls st) g' m \<and>
      net (snd (call_esearch W g' st)) = net st @ attempts (ESearch g') 3 m 1"
    if "1 \<le> m \<and> m \<le> 6 \<and> (\<forall>n. 1 \<le> n \<and> n < m \<longrightarrow> transient (esearch_attempt W (ncalls st) g' n)) \<and>
        fatal (esearch_attempt W (ncalls st) g' m)"
    using ft [of m "esearch_attempt W (ncalls st) g'" "ESearch g'"] that
    by (simp add: call_esearch_def)
  have d: "fst (call_efetch W i' st) = efetch_attempt W (ncalls st) i' m' \<and>
      net (snd (call_efetch W i' st)) = net st @ attempts (EFetch i') 3 m' 1"
    if "1 \<le> m' \<and> m' \<le> 6 \<and> (\<forall>n. 1 \<le> n \<and> n < m' \<longrightarrow> transient (efetch_attempt W (ncalls st) i' n)) \<and>
        fatal (efetch_attempt W (ncalls st) i' m')"
    using ft [of m' "efetch_attempt W (ncalls st) i'" "EFetch i'"] that
    by (simp add: call_efetch_def)
  from a b c d show ?thesis by blast
qed

theorem retry_policy_witness:
  "(\<forall>n. transient (esearch_attempt W_down (ncalls (initial [])) ''TP53'' n)) \<and>
   (\<forall>n. transient (efetch_attempt W_down (ncalls (initial [])) ''7157'' n)) \<and>
   transient (esearch_attempt W_down (ncalls (initial [])) ''BRCA1'' 1) \<and>
   transient (esearch_attempt W_down (ncalls (initial [])) ''BRCA1'' 2) \<and>
   fatal (esearch_attempt W_down (ncalls (initial [])) ''BRCA1'' 3) \<and>
   transient (efetch_attempt W_down (ncalls (initial [])) ''672'' 1) \<and>
   transient (efetch_attempt W_down (ncalls (initial [])) ''672'' 2) \<and>
   fatal (efetch_attempt W_down (ncalls (initial [])) ''672'' 3) \<and>
   fst (call_esearch W_down ''TP53'' (initial [])) = Raises RetryError \<and>
   net (snd (call_esearch W_down ''TP53'' (initial []))) =
     [HttpGet (ESearch ''TP53'') 1, Sleep 3, HttpGet (ESearch ''TP53'') 2, Sleep 3,
      HttpGet (ESearch ''TP53'') 3, Sleep 3, HttpGet (ESearch ''TP53'') 4, Sleep 3,
      HttpGet (ESearch ''TP53'') 5, Sleep 3, HttpGet (ESearch ''TP53'') 6] \<and>
   fst (call_efetch W_down ''7157'' (initial [])) = Raises RetryError \<and>
   net (snd (call_efetch W_down ''7157'' (initial []))) =
     [HttpGet (EFetch ''7157'') 1, Sleep 3, HttpGet (EFetch ''7157'') 2, Sleep 3,
      HttpGet (EFetch ''7157'') 3, Sleep 3, HttpGet (EFetch ''7157'') 4, Sleep 3,
      HttpGet (EFetch ''7157'') 5, Sleep 3, HttpGet (EFetch ''7157'') 6] \<and>
   fst (call_esearch W_down ''BRCA1'' (initial [])) = Raises (OtherException ''ValueError'') \<and>
   net (snd (call_esearch W_down ''BRCA1'' (initial []))) =
     [HttpGet (ESearch ''BRCA1'') 1, Sleep 3, HttpGet (ESearch ''BRCA1'') 2, Sleep 3,
      HttpGet (ESearch ''BRCA1'') 3] \<and>
   fst (call_efetch W_down ''672'' (initial [])) = Raises (OtherException ''ValueError'') \<and>
   net (snd (call_efetch W_down ''672'' (initial []))) =
     [HttpGet (EFetch ''672'') 1, Sleep 3, HttpGet (EFetch ''672'') 2, Sleep 3,
      HttpGet (EFetch ''672'') 3]"
proof -
  have h1: "\<forall>n. transient (esearch_attempt W_down (ncalls (initial [])) ''TP53'' n)"
    by (simp add: W_down_def)
  have h2: "\<forall>n. transient (efetch_attempt W_down (ncalls (initial [])) ''7157'' n)"
    by (simp add: W_down_def)
  have h3: "1 \<le> (3::nat) \<and> (3::nat) \<le> 6 \<and>
    (\<forall>n. 1 \<le> n \<and> n < 3 \<longrightarrow> transient (esearch_attempt W_down (ncalls (initial [])) ''BRCA1'' n)) \<and>
    fatal (esearch_attempt W_down (ncalls (initial [])) ''BRCA1'' 3)"
    by (simp add: W_down_def)
  have h4: "1 \<le> (3::nat) \<and> (3::nat) \<le> 6 \<and>
    (\<forall>n. 1 \<le> n \<and> n < 3 \<longrightarrow> transient (efetch_attempt W_down (ncalls (initial [])) ''672'' n)) \<and>
    fatal (efetch_attempt W_down (ncalls (initial [])) ''672'' 3)"
    by (simp add: W_down_def)
  have a3: "attempts req 3 3 1 =
      [HttpGet req 1, Sleep 3, HttpGet req 2, Sleep 3, HttpGet req 3]" for req
    by (simp add: eval_nat_numeral)
  have v: "esearch_attempt W_down 0 ''BRCA1'' 3 = Raises (OtherException ''ValueError'')"
    "efetch_attempt W_down 0 ''672'' 3 = Raises (OtherException ''ValueError'')"
    by (simp_all add: W_down_def)
  have n0: "net (initial []) = []" "ncalls (initial []) = 0"
    by (simp_all add: initial_def)
  have t: "transient (esearch_attempt W_down (ncalls (initial [])) ''BRCA1'' 1)"
    "transient (esearch_attempt W_down (ncalls (initial [])) ''BRCA1'' 2)"
    "fatal (esearch_attempt W_down (ncalls (initial [])) ''BRCA1'' 3)"
    "transient (efetch_attempt W_down (ncalls (initial [])) ''672'' 1)"
    "transient (efetch_attempt W_down (ncalls (initial [])) ''672'' 2)"
    "fatal (efetch_attempt W_down (ncalls (initial [])) ''672'' 3)"
    by (simp_all add: W_down_def)
  show ?thesis
    using retry_policy [of W_down "initial []" "''TP53''" "''7157''" 3 "''BRCA1''" 3 "''672''"]
      h1 h2 h3 h4 t
    unfolding a3 v n0 append_Nil by blast
qed

section \<open>The calls of the query client\<close>

lemma fetched_ids_append [simp]: "fetched_ids (xs @ ys) = fetched_ids xs @ fetched_ids ys"
  by (simp add: fetched_ids_def)

lemma searched_append [simp]: "searched (xs @ ys) = searched xs @ searched ys"
  by (simp add: searched_def)

lemma fetched_ids_retry_from:
  "0 < n \<Longrightarrow> fetched_ids (snd (retry_from s w req f n)) =
     (case req of EFetch i \<Rightarrow> if n = 1 then [i] else [] | ESearch g \<Rightarrow> [])"
proof (induction s w req f n rule: retry_from.induct)
  case (1 s w req f n)
  note pos = \<open>0 < n\<close>
  show ?case
  proof (cases "f n")
    case (Returns v)
    then show ?thesis
      by (simp add: retry_from_Returns fetched_ids_def split: request.splits)
  next
    case (Raises e)
    show ?thesis
    proof (cases "is_RequestException e")
      case False
      with Raises show ?thesis
        by (simp add: retry_from_other fetched_ids_def split: request.splits)
    next
      case True
      show ?thesis
      proof (cases "s \<le> n")
        case le: True
        with Raises True show ?thesis
          by (simp add: retry_from_last fetched_ids_def split: request.splits)
      next
        case gt: False
        then have "n < s" by simp
        moreover have "fetched_ids (snd (retry_from s w req f (Suc n))) =
            (case req of EFetch i \<Rightarrow> if Suc n = 1 then [i] else [] | ESearch g \<Rightarrow> [])"
          using "1.IH" [OF Raises True gt] by simp
        ultimately show ?thesis
          using Raises True pos
          by (simp add: retry_from_again fetched_ids_def split: request.splits)
      qed
    qed
  qed
qed

lemma searched_retry_from:
  "0 < n \<Longrightarrow> searched (snd (retry_from s w req f n)) =
     (case req of ESearch g \<Rightarrow> if n = 1 then [g] else [] | EFetch i \<Rightarrow> [])"
proof (induction s w req f n rule: retry_from.induct)
  case (1 s w req f n)
  note pos = \<open>0 < n\<close>
  show ?case
  proof (cases "f n")
    case (Returns v)
    then show ?thesis
      by (simp add: retry_from_Returns searched_def split: request.splits)
  next
    case (Raises e)
    show ?thesis
    proof (cases "is_RequestException e")
      case False
      with Raises show ?thesis
        by (simp add: retry_from_other searched_def split: request.splits)
    next
      case True
      show ?thesis
      proof (cases "s \<le> n")
        case le: True
        with Raises True show ?thesis
          by (simp add: retry_from_last searched_def split: request.splits)
      next
        case gt: False
        then have "n < s" by simp
        moreover have "searched (snd (retry_from s w req f (Suc n))) =
            (case req of ESearch g \<Rightarrow> if Suc n = 1 then [g] else [] | EFetch i \<Rightarrow> [])"
          using "1.IH" [OF Raises True gt] by simp
        ultimately show ?thesis
          using Raises True pos
          by (simp add: retry_from_again searched_def split: request.splits)
      qed
    qed
  qed
qed

text \<open>What a call leaves in the state, whatever its outcome.\<close>

lemma call_efetch_state:
  "snd (call_efetch W i st) =
     st\<lparr>ncalls := Suc (ncalls st), net := net (snd (call_efetch W i st))\<rparr> \<and>
   fetched_ids (net (snd (call_efetch W i st))) = fetched_ids (net st) @ [i] \<and>
   searched (net (snd (call_efetch W i st))) = searched (net st)"
  using fetched_ids_retry_from [where n = 1 and s = 6 and w = 3 and req = "EFetch i" and f = "efetch_attempt W (ncalls st) i"]
    searched_retry_from [where n = 1 and s = 6 and w = 3 and req = "EFetch i" and f = "efetch_attempt W (ncalls st) i"]
  by (simp add: call_efetch_def retry_def split_beta)

lemma call_esearch_state:
  "snd (call_esearch W g st) =
     st\<lparr>ncalls := Suc (ncalls st), net := net (snd (call_esearch W g st))\<rparr> \<and>
   fetched_ids (net (snd (call_esearch W g st))) = fetched_ids (net st) \<and>
   searched (net (snd (call_esearch W g st))) = searched (net st) @ [g]"
  using fetched_ids_retry_from [where n = 1 and s = 6 and w = 3 and req = "ESearch g" and f = "esearch_attempt W (ncalls st) g"]
    searched_retry_from [where n = 1 and s = 6 and w = 3 and req = "ESearch g" and f = "esearch_attempt W (ncalls st) g"]
  by (simp add: call_esearch_def retry_def split_beta)

lemma call_efetch_frame:
  assumes "call_efetch W i st = (r, st1)"
  shows "gene_id_dict st1 = gene_id_dict st" "genes_None st1 = genes_None st"
    "genes_NCBI_Discontinued_1 st1 = genes_NCBI_Discontinued_1 st"
    "genes_NCBI_Discontinued_2 st1 = genes_NCBI_Discontinued_2 st"
    "log_file st1 = log_file st" "check_gene_id st1 = check_gene_id st"
    "ncalls st1 = Suc (ncalls st)"
    "fetched_ids (net st1) = fetched_ids (net st) @ [i]"
    "searched (net st1) = searched (net st)"
proof -
  have eq: "st1 = st\<lparr>ncalls := Suc (ncalls st), net := net st1\<rparr>"
    using call_efetch_state [of W i st] assms by simp
  show "gene_id_dict st1 = gene_id_dict st" by (subst eq) simp
  show "genes_None st1 = genes_None st" by (subst eq) simp
  show "genes_NCBI_Discontinued_1 st1 = genes_NCBI_Discontinued_1 st" by (subst eq) simp
  show "genes_NCBI_Discontinued_2 st1 = genes_NCBI_Discontinued_2 st" by (subst eq) simp
  show "log_file st1 = log_file st" by (subst eq) simp
  show "check_gene_id st1 = check_gene_id st" by (subst eq) simp
  show "ncalls st1 = Suc (ncalls st)" by (subst eq) simp
  show "fetched_ids (net st1) = fetched_ids (net st) @ [i]"
    using call_efetch_state [of W i st] assms by simp
  show "searched (net st1) = searched (net st)"
    using call_efetch_state [of W i st] assms by simp
qed

lemma call_esearch_frame:
  assumes "call_esearch W g st = (r, st1)"
  shows "gene_id_dict st1 = gene_id_dict st" "genes_None st1 = genes_None st"
    "genes_NCBI_Discontinued_1 st1 = genes_NCBI_Discontinued_1 st"
    "genes_NCBI_Discontinued_2 st1 = genes_NCBI_Discontinued_2 st"
    "log_file st1 = log_file st" "check_gene_id st1 = check_gene_id st"
    "ncalls st1 = Suc (ncalls st)"
    "fetched_ids (net st1) = fetched_ids (net st)"
    "searched (net st1) = searched (net st) @ [g]"
proof -
  have eq: "st1 = st\<lparr>ncalls := Suc (ncalls st), net := net st1\<rparr>"
    using call_esearch_state [of W g st] assms by simp
  show "gene_id_dict st1 = gene_id_dict st" by (subst eq) simp
  show "genes_None st1 = genes_None st" by (subst eq) simp
  show "genes_NCBI_Discontinued_1 st1 = genes_NCBI_Discontinued_1 st" by (subst eq) simp
  show "genes_NCBI_Discontinued_2 st1 = genes_NCBI_Discontinued_2 st" by (subst eq) simp
  show "log_file st1 = log_file st" by (subst eq) simp
  show "check_gene_id st1 = check_gene_id st" by (subst eq) simp
  show "ncalls st1 = Suc (ncalls st)" by (subst eq) simp
  show "fetched_ids (net st1) = fetched_ids (net st)"
    using call_esearch_state [of W g st] assms by simp
  show "searched (net st1) = searched (net st) @ [g]"
    using call_esearch_state [of W g st] assms by simp
qed

lemma call_efetch_record:
  "record_at W (ncalls st) i = Some root \<Longrightarrow> fst (call_efetch W i st) = Returns (Xml root)"
  by (auto simp: record_at_def call_efetch_def split_beta
      split: attempt.splits efetch_response.splits)

lemma call_esearch_result:
  "search_at W (ncalls st) g = Some ids \<Longrightarrow> fst (call_esearch W g st) = Returns (EsearchResult ids)"
  by (auto simp: search_at_def call_esearch_def split_beta
      split: attempt.splits esearch_response.splits)

section \<open>The steps of the candidate loop\<close>

lemma log_official_frame [simp]:
  "gene_id_dict (log_official g c ts st) = gene_id_dict st"
  "genes_None (log_official g c ts st) = genes_None st"
  "genes_NCBI_Discontinued_1 (log_official g c ts st) = genes_NCBI_Discontinued_1 st"
  "genes_NCBI_Discontinued_2 (log_official g c ts st) = genes_NCBI_Discontinued_2 st"
  "check_gene_id (log_official g c ts st) = check_gene_id st"
  "ncalls (log_official g c ts st) = ncalls st"
  "net (log_official g c ts st) = net st"
  by (simp_all add: log_official_def write_log_def)

lemma write_log_frame [simp]:
  "gene_id_dict (write_log l st) = gene_id_dict st"
  "genes_None (write_log l st) = genes_None st"
  "genes_NCBI_Discontinued_1 (write_log l st) = genes_NCBI_Discontinued_1 st"
  "genes_NCBI_Discontinued_2 (write_log l st) = genes_NCBI_Discontinued_2 st"
  "check_gene_id (write_log l st) = check_gene_id st"
  "ncalls (write_log l st) = ncalls st"
  "net (write_log l st) = net st"
  "log_file (write_log l st) = log_file st @ [l]"
  by (simp_all add: write_log_def)

lemma append_Discontinued_2_frame [simp]:
  "gene_id_dict (append_Discontinued_2 x st) = gene_id_dict st"
  "genes_None (append_Discontinued_2 x st) = genes_None st"
  "genes_NCBI_Discontinued_1 (append_Discontinued_2 x st) = genes_NCBI_Discontinued_1 st"
  "genes_NCBI_Discontinued_2 (append_Discontinued_2 x st) = genes_NCBI_Discontinued_2 st @ [x]"
  "check_gene_id (append_Discontinued_2 x st) = check_gene_id st"
  "ncalls (append_Discontinued_2 x st) = ncalls st"
  "net (append_Discontinued_2 x st) = net st"
  "log_file (append_Discontinued_2 x st) = log_file st"
  by (simp_all add: append_Discontinued_2_def)

lemma append_Discontinued_1_frame [simp]:
  "gene_id_dict (append_Discontinued_1 x st) = gene_id_dict st"
  "genes_None (append_Discontinued_1 x st) = genes_None st"
  "genes_NCBI_Discontinued_1 (append_Discontinued_1 x st) = genes_NCBI_Discontinued_1 st @ [x]"
  "genes_NCBI_Discontinued_2 (append_Discontinued_1 x st) = genes_NCBI_Discontinued_2 st"
  "check_gene_id (append_Discontinued_1 x st) = check_gene_id st"
  "ncalls (append_Discontinued_1 x st) = ncalls st"
  "net (append_Discontinued_1 x st) = net st"
  "log_file (append_Discontinued_1 x st) = log_file st"
  by (simp_all add: append_Discontinued_1_def)

lemma append_None_frame [simp]:
  "gene_id_dict (append_None x st) = gene_id_dict st"
  "genes_None (append_None x st) = genes_None st @ [x]"
  "genes_NCBI_Discontinued_1 (append_None x st) = genes_NCBI_Discontinued_1 st"
  "genes_NCBI_Discontinued_2 (append_None x st) = genes_NCBI_Discontinued_2 st"
  "check_gene_id (append_None x st) = check_gene_id st"
  "ncalls (append_None x st) = ncalls st"
  "net (append_None x st) = net st"
  "log_file (append_None x st) = log_file st"
  by (simp_all add: append_None_def)

lemma store_frame [simp]:
  "gene_id_dict (store g i cs st) = (gene_id_dict st)(g \<mapsto> (case cs of [] \<Rightarrow> i | a # as \<Rightarrow> a))"
  "genes_None (store g i cs st) = genes_None st"
  "genes_NCBI_Discontinued_1 (store g i cs st) = genes_NCBI_Discontinued_1 st"
  "genes_NCBI_Discontinued_2 (store g i cs st) = genes_NCBI_Discontinued_2 st"
  "check_gene_id (store g i cs st) = check_gene_id st"
  "ncalls (store g i cs st) = ncalls st"
  "net (store g i cs st) = net st"
  "log_file (store g i cs st) = log_file st @ [LogSuccess g (case cs of [] \<Rightarrow> i | a # as \<Rightarrow> a)]"
  by (simp_all add: store_def Let_def)

lemma check_loop_raises:
  "fst (call_efetch W c (st\<lparr>check_gene_id := Some c\<rparr>)) = Raises e \<Longrightarrow>
   check_loop W gene (c # ids) gid cand st =
     (Inl e, snd (call_efetch W c (st\<lparr>check_gene_id := Some c\<rparr>)))"
  by (cases "call_efetch W c (st\<lparr>check_gene_id := Some c\<rparr>)") simp

lemma check_loop_badxml:
  "fst (call_efetch W c (st\<lparr>check_gene_id := Some c\<rparr>)) = Returns BadXml \<Longrightarrow>
   check_loop W gene (c # ids) gid cand st =
     (Inl ParseError, snd (call_efetch W c (st\<lparr>check_gene_id := Some c\<rparr>)))"
  by (cases "call_efetch W c (st\<lparr>check_gene_id := Some c\<rparr>)") simp

lemma check_loop_discontinued:
  "fst (call_efetch W c (st\<lparr>check_gene_id := Some c\<rparr>)) = Returns (Xml root) \<Longrightarrow>
   discontinued root \<Longrightarrow>
   check_loop W gene (c # ids) gid cand st =
     check_loop W gene ids gid cand
       (append_Discontinued_2 (gene, c)
          (write_log (LogDiscontinued gene c)
             (snd (call_efetch W c (st\<lparr>check_gene_id := Some c\<rparr>)))))"
  by (cases "call_efetch W c (st\<lparr>check_gene_id := Some c\<rparr>)")
    (auto simp: discontinued_def)

lemma check_loop_exact:
  "fst (call_efetch W c (st\<lparr>check_gene_id := Some c\<rparr>)) = Returns (Xml root) \<Longrightarrow>
   \<not> discontinued root \<Longrightarrow> official root = Some gene \<Longrightarrow>
   check_loop W gene (c # ids) gid cand st =
     (Inr (c, []),
      log_official gene c (Gene_ref_locus root)
        (write_log (LogChecking gene c)
           (snd (call_efetch W c (st\<lparr>check_gene_id := Some c\<rparr>)))))"
  by (cases "call_efetch W c (st\<lparr>check_gene_id := Some c\<rparr>)")
    (auto simp: discontinued_def official_def)

lemma check_loop_next:
  "fst (call_efetch W c (st\<lparr>check_gene_id := Some c\<rparr>)) = Returns (Xml root) \<Longrightarrow>
   \<not> discontinued root \<Longrightarrow> official root \<noteq> Some gene \<Longrightarrow>
   check_loop W gene (c # ids) gid cand st =
     check_loop W gene ids gid (if has_alias gene root then cand @ [c] else cand)
       (log_official gene c (Gene_ref_locus root)
          (write_log (LogChecking gene c)
             (snd (call_efetch W c (st\<lparr>check_gene_id := Some c\<rparr>)))))"
  by (cases "call_efetch W c (st\<lparr>check_gene_id := Some c\<rparr>)")
    (auto simp: discontinued_def official_def has_alias_def)

lemma check_loop_cases:
  obtains
    (raises) e where "fst (call_efetch W c (st\<lparr>check_gene_id := Some c\<rparr>)) = Raises e"
  | (badxml) "fst (call_efetch W c (st\<lparr>check_gene_id := Some c\<rparr>)) = Returns BadXml"
  | (disc) root where "fst (call_efetch W c (st\<lparr>check_gene_id := Some c\<rparr>)) = Returns (Xml root)"
      "discontinued root"
  | (exact) root where "fst (call_efetch W c (st\<lparr>check_gene_id := Some c\<rparr>)) = Returns (Xml root)"
      "\<not> discontinued root" "official root = Some gene"
  | (other) root where "fst (call_efetch W c (st\<lparr>check_gene_id := Some c\<rparr>)) = Returns (Xml root)"
      "\<not> discontinued root" "official root \<noteq> Some gene"
proof (cases "fst (call_efetch W c (st\<lparr>check_gene_id := Some c\<rparr>))")
  case (Returns resp)
  then show ?thesis
    using that by (cases resp) auto
next
  case (Raises e)
  then show ?thesis using that by auto
qed

declare check_loop.simps(2) [simp del]

lemmas call_efetch_snd [simp] = call_efetch_frame [OF surjective_pairing]

lemmas call_esearch_snd [simp] = call_esearch_frame [OF surjective_pairing]

lemma check_loop_frame:
  "gene_id_dict (snd (check_loop W gene ids gid cand st)) = gene_id_dict st \<and>
   genes_None (snd (check_loop W gene ids gid cand st)) = genes_None st \<and>
   genes_NCBI_Discontinued_1 (snd (check_loop W gene ids gid cand st)) =
     genes_NCBI_Discontinued_1 st \<and>
   searched (net (snd (check_loop W gene ids gid cand st))) = searched (net st) \<and>
   (ids \<noteq> [] \<longrightarrow> check_gene_id (snd (check_loop W gene ids gid cand st)) \<noteq> None)"
proof (induction ids arbitrary: st gid cand)
  case Nil
  show ?case by simp
next
  case (Cons c ids)
  have step: "check_gene_id (snd (check_loop W gene ids g' c' s')) \<noteq> None"
    if "check_gene_id s' \<noteq> None" for g' c' s'
    using Cons [of g' c' s'] that by (cases ids) auto
  show ?case
  proof (cases rule: check_loop_cases [where W = W and c = c and st = st and gene = gene])
    case (raises e)
    then show ?thesis by (simp add: check_loop_raises)
  next
    case badxml
    then show ?thesis by (simp add: check_loop_badxml)
  next
    case (disc root)
    then show ?thesis by (simp add: check_loop_discontinued Cons step)
  next
    case (exact root)
    then show ?thesis by (simp add: check_loop_exact)
  next
    case (other root)
    then show ?thesis by (simp add: check_loop_next Cons step)
  qed
qed

lemma check_loop_finds_exact:
  assumes "k < length ids"
    and "\<forall>j\<le>k. \<exists>root. record_at W (ncalls st + j) (ids ! j) = Some root \<and>
           (if j = k then \<not> discontinued root \<and> official root = Some gene
            else discontinued root \<or> official root \<noteq> Some gene)"
  shows "fst (check_loop W gene ids gid cand st) = Inr (ids ! k, []) \<and>
    ncalls (snd (check_loop W gene ids gid cand st)) = ncalls st + Suc k \<and>
    fetched_ids (net (snd (check_loop W gene ids gid cand st))) =
      fetched_ids (net st) @ take (Suc k) ids"
  using assms
proof (induction ids arbitrary: k st gid cand)
  case Nil
  then show ?case by simp
next
  case (Cons c ids)
  let ?F = "call_efetch W c (st\<lparr>check_gene_id := Some c\<rparr>)"
  from Cons.prems(2) obtain root where
    root: "record_at W (ncalls st) c = Some root"
      "if 0 = k then \<not> discontinued root \<and> official root = Some gene
       else discontinued root \<or> official root \<noteq> Some gene"
    by force
  have F: "fst ?F = Returns (Xml root)"
    using call_efetch_record [of W "st\<lparr>check_gene_id := Some c\<rparr>" c root] root(1) by simp
  show ?case
  proof (cases k)
    case 0
    with root(2) have "\<not> discontinued root" "official root = Some gene" by auto
    with F 0 show ?thesis by (simp add: check_loop_exact)
  next
    case (Suc k')
    have tail: "\<forall>j\<le>k'. \<exists>root. record_at W (Suc (ncalls st) + j) (ids ! j) = Some root \<and>
           (if j = k' then \<not> discontinued root \<and> official root = Some gene
            else discontinued root \<or> official root \<noteq> Some gene)"
    proof (intro allI impI)
      fix j assume "j \<le> k'"
      then have "Suc j \<le> k" using Suc by simp
      with Cons.prems(2) obtain r where
        "record_at W (ncalls st + Suc j) ((c # ids) ! Suc j) = Some r \<and>
           (if Suc j = k then \<not> discontinued r \<and> official r = Some gene
            else discontinued r \<or> official r \<noteq> Some gene)"
        by blast
      then show "\<exists>root. record_at W (Suc (ncalls st) + j) (ids ! j) = Some root \<and>
           (if j = k' then \<not> discontinued root \<and> official root = Some gene
            else discontinued root \<or> official root \<noteq> Some gene)"
        using Suc by auto
    qed
    have len: "k' < length ids" using Cons.prems(1) Suc by simp
    from root(2) Suc have ne: "discontinued root \<or> official root \<noteq> Some gene" by simp
    show ?thesis
    proof (cases "discontinued root")
      case True
      let ?st' = "append_Discontinued_2 (gene, c) (write_log (LogDiscontinued gene c) (snd ?F))"
      have n: "ncalls ?st' = Suc (ncalls st)" by simp
      have "check_loop W gene (c # ids) gid cand st = check_loop W gene ids gid cand ?st'"
        using F True by (rule check_loop_discontinued)
      moreover note Cons.IH [of k' ?st' gid cand, OF len]
      ultimately show ?thesis using tail Suc by simp
    next
      case False
      with ne have o: "official root \<noteq> Some gene" by simp
      let ?st' = "log_official gene c (Gene_ref_locus root) (write_log (LogChecking gene c) (snd ?F))"
      let ?cand = "if has_alias gene root then cand @ [c] else cand"
      have n: "ncalls ?st' = Suc (ncalls st)" by simp
      have "check_loop W gene (c # ids) gid cand st = check_loop W gene ids gid ?cand ?st'"
        using F False o by (rule check_loop_next)
      moreover note Cons.IH [of k' ?st' gid ?cand, OF len]
      ultimately show ?thesis using tail Suc by simp
    qed
  qed
qed

lemma check_loop_no_exact:
  assumes "\<forall>j<length ids. \<exists>root. record_at W (ncalls st + j) (ids ! j) = Some root \<and>
           (discontinued root \<or> official root \<noteq> Some gene)"
  shows "fst (check_loop W gene ids gid cand st) =
      Inr (gid, cand @ alias_matches W gene (ncalls st) ids) \<and>
    ncalls (snd (check_loop W gene ids gid cand st)) = ncalls st + length ids \<and>
    fetched_ids (net (snd (check_loop W gene ids gid cand st))) = fetched_ids (net st) @ ids"
  using assms
proof (induction ids arbitrary: st cand)
  case Nil
  then show ?case by simp
next
  case (Cons c ids)
  let ?F = "call_efetch W c (st\<lparr>check_gene_id := Some c\<rparr>)"
  from Cons.prems obtain root where
    root: "record_at W (ncalls st) c = Some root"
      "discontinued root \<or> official root \<noteq> Some gene"
    by force
  have F: "fst ?F = Returns (Xml root)"
    using call_efetch_record [of W "st\<lparr>check_gene_id := Some c\<rparr>" c root] root(1) by simp
  have tail: "\<forall>j<length ids. \<exists>root. record_at W (Suc (ncalls st) + j) (ids ! j) = Some root \<and>
           (discontinued root \<or> official root \<noteq> Some gene)"
  proof (intro allI impI)
    fix j assume "j < length ids"
    then have "Suc j < length (c # ids)" by simp
    with Cons.prems obtain r where
      "record_at W (ncalls st + Suc j) ((c # ids) ! Suc j) = Some r \<and>
         (discontinued r \<or> official r \<noteq> Some gene)"
      by blast
    then show "\<exists>root. record_at W (Suc (ncalls st) + j) (ids ! j) = Some root \<and>
           (discontinued root \<or> official root \<noteq> Some gene)"
      by auto
  qed
  show ?case
  proof (cases "discontinued root")
    case True
    let ?st' = "append_Discontinued_2 (gene, c) (write_log (LogDiscontinued gene c) (snd ?F))"
    have n: "ncalls ?st' = Suc (ncalls st)" by simp
    have "check_loop W gene (c # ids) gid cand st = check_loop W gene ids gid cand ?st'"
      using F True by (rule check_loop_discontinued)
    moreover note Cons.IH [of ?st' cand]
    ultimately show ?thesis
      using tail root(1) True by simp
  next
    case False
    with root(2) have o: "official root \<noteq> Some gene" by simp
    let ?st' = "log_official gene c (Gene_ref_locus root) (write_log (LogChecking gene c) (snd ?F))"
    let ?cand = "if has_alias gene root then cand @ [c] else cand"
    have n: "ncalls ?st' = Suc (ncalls st)" by simp
    have "check_loop W gene (c # ids) gid cand st = check_loop W gene ids gid ?cand ?st'"
      using F False o by (rule check_loop_next)
    moreover note Cons.IH [of ?st' ?cand]
    ultimately show ?thesis
      using tail root(1) False by simp
  qed
qed

lemma alias_matches_none:
  "\<forall>j<length ids. \<forall>root. record_at W (c + j) (ids ! j) = Some root \<longrightarrow>
       discontinued root \<or> \<not> has_alias gene root \<Longrightarrow>
   alias_matches W gene c ids = []"
proof (induction ids arbitrary: c)
  case Nil
  show ?case by simp
next
  case (Cons i ids)
  have "\<forall>j<length ids. \<forall>root. record_at W (Suc c + j) (ids ! j) = Some root \<longrightarrow>
       discontinued root \<or> \<not> has_alias gene root"
  proof (intro allI impI)
    fix j root assume "j < length ids" "record_at W (Suc c + j) (ids ! j) = Some root"
    then show "discontinued root \<or> \<not> has_alias gene root"
      using Cons.prems [rule_format, of "Suc j" root] by simp
  qed
  then have "alias_matches W gene (Suc c) ids = []" by (rule Cons.IH)
  moreover have "\<forall>root. record_at W c i = Some root \<longrightarrow> discontinued root \<or> \<not> has_alias gene root"
    using Cons.prems [rule_format, of 0] by simp
  ultimately show ?case by (auto split: option.splits)
qed

lemma alias_matches_first:
  "m < length ids \<Longrightarrow>
   \<exists>root. record_at W (c + m) (ids ! m) = Some root \<and> \<not> discontinued root \<and> has_alias gene root \<Longrightarrow>
   \<forall>j<m. \<forall>root. record_at W (c + j) (ids ! j) = Some root \<longrightarrow>
       discontinued root \<or> \<not> has_alias gene root \<Longrightarrow>
   \<exists>later. alias_matches W gene c ids = ids ! m # later"
proof (induction ids arbitrary: c m)
  case Nil
  then show ?case by simp
next
  case (Cons i ids)
  show ?case
  proof (cases m)
    case 0
    with Cons.prems(2) show ?thesis by auto
  next
    case (Suc m')
    have len: "m' < length ids" using Cons.prems(1) Suc by simp
    have at: "\<exists>root. record_at W (Suc c + m') (ids ! m') = Some root \<and>
        \<not> discontinued root \<and> has_alias gene root"
      using Cons.prems(2) Suc by simp
    have before: "\<forall>j<m'. \<forall>root. record_at W (Suc c + j) (ids ! j) = Some root \<longrightarrow>
        discontinued root \<or> \<not> has_alias gene root"
    proof (intro allI impI)
      fix j root assume "j < m'" "record_at W (Suc c + j) (ids ! j) = Some root"
      then show "discontinued root \<or> \<not> has_alias gene root"
        using Cons.prems(3) [rule_format, of "Suc j" root] Suc by simp
    qed
    from Cons.IH [OF len at before] obtain later where
      "alias_matches W gene (Suc c) ids = ids ! m' # later" by blast
    moreover have "\<forall>root. record_at W c i = Some root \<longrightarrow> discontinued root \<or> \<not> has_alias gene root"
      using Cons.prems(3) [rule_format, of 0] Suc by simp
    ultimately show ?thesis using Suc by (auto split: option.splits)
  qed
qed

section \<open>One symbol\<close>

lemma try_body_many:
  assumes "search_at W (ncalls st) gene = Some ids" and "2 \<le> length ids"
  shows "try_body W gene st =
     (case check_loop W gene ids (ids ! 0) []
             (write_log (LogCandidates gene ids) (snd (call_esearch W gene st))) of
        (Inl e, st2) \<Rightarrow> (Raise e, st2)
      | (Inr (gene_id, candidate_gene_id), st2) \<Rightarrow>
          (Normal, store gene gene_id candidate_gene_id st2))"
proof -
  obtain a b rest where ids: "ids = a # b # rest"
    using assms(2) by (cases ids; cases "tl ids") auto
  have "fst (call_esearch W gene st) = Returns (EsearchResult ids)"
    using assms(1) by (rule call_esearch_result)
  then show ?thesis
    unfolding try_body_def ids
    by (cases "call_esearch W gene st") simp
qed

lemma iteration_many_resolved:
  assumes "search_at W (ncalls st) gene = Some ids" and "2 \<le> length ids"
    and "fst (check_loop W gene ids (ids ! 0) []
            (write_log (LogCandidates gene ids) (snd (call_esearch W gene st)))) = Inr (gid, cand)"
  shows "iteration W gene st =
     store gene gid cand
       (snd (check_loop W gene ids (ids ! 0) []
          (write_log (LogCandidates gene ids) (snd (call_esearch W gene st)))))"
  using assms(3) unfolding iteration_def try_body_many [OF assms(1,2)]
  by (cases "check_loop W gene ids (ids ! 0) []
          (write_log (LogCandidates gene ids) (snd (call_esearch W gene st)))") simp

lemma try_body_cases:
  fixes W gene st
  defines "S \<equiv> snd (call_esearch W gene st)"
  obtains
    (search_raises) e where "fst (call_esearch W gene st) = Raises e"
      "try_body W gene st = (Raise e, S)"
  | (bad_body) e where "fst (call_esearch W gene st) = Returns (BadSearchBody e)"
      "try_body W gene st = (Raise e, S)"
  | (none) "fst (call_esearch W gene st) = Returns (EsearchResult [])"
      "try_body W gene st = (Continue, append_None gene (write_log (LogNoGeneId gene) S))"
  | (one_raises) i e where "fst (call_esearch W gene st) = Returns (EsearchResult [i])"
      "fst (call_efetch W i S) = Raises e"
      "try_body W gene st = (Raise e, snd (call_efetch W i S))"
  | (one_badxml) i where "fst (call_esearch W gene st) = Returns (EsearchResult [i])"
      "fst (call_efetch W i S) = Returns BadXml"
      "try_body W gene st = (Raise ParseError, snd (call_efetch W i S))"
  | (one_live) i root where "fst (call_esearch W gene st) = Returns (EsearchResult [i])"
      "fst (call_efetch W i S) = Returns (Xml root)" "\<not> discontinued root"
      "try_body W gene st =
         (Normal, store gene i [] (write_log (LogUniqueGeneId gene i) (snd (call_efetch W i S))))"
  | (one_unbound) i root where "fst (call_esearch W gene st) = Returns (EsearchResult [i])"
      "fst (call_efetch W i S) = Returns (Xml root)" "discontinued root"
      "check_gene_id st = None"
      "try_body W gene st = (Raise (NameError ''check_gene_id''), snd (call_efetch W i S))"
  | (one_stale) i root stale where "fst (call_esearch W gene st) = Returns (EsearchResult [i])"
      "fst (call_efetch W i S) = Returns (Xml root)" "discontinued root"
      "check_gene_id st = Some stale"
      "try_body W gene st =
         (Continue, append_Discontinued_1 (gene, i)
            (write_log (LogUniqueDiscontinued gene stale) (snd (call_efetch W i S))))"
  | (many_raises) ids e where "fst (call_esearch W gene st) = Returns (EsearchResult ids)"
      "2 \<le> length ids"
      "fst (check_loop W gene ids (ids ! 0) [] (write_log (LogCandidates gene ids) S)) = Inl e"
      "try_body W gene st =
         (Raise e, snd (check_loop W gene ids (ids ! 0) [] (write_log (LogCandidates gene ids) S)))"
  | (many_done) ids gid cand where "fst (call_esearch W gene st) = Returns (EsearchResult ids)"
      "2 \<le> length ids"
      "fst (check_loop W gene ids (ids ! 0) [] (write_log (LogCandidates gene ids) S)) = Inr (gid, cand)"
      "try_body W gene st =
         (Normal, store gene gid cand
            (snd (check_loop W gene ids (ids ! 0) [] (write_log (LogCandidates gene ids) S))))"
proof -
  obtain r where E: "call_esearch W gene st = (r, S)"
    unfolding S_def by (cases "call_esearch W gene st") simp
  have chk: "check_gene_id (snd (call_efetch W i S)) = check_gene_id st" for i
    using call_esearch_frame(6) [OF E] by simp
  show ?thesis
  proof (cases r)
    case (Raises e)
    with E show ?thesis using search_raises [of e] by (simp add: try_body_def)
  next
    case (Returns resp)
    show ?thesis
    proof (cases resp)
      case (BadSearchBody e)
      with E Returns show ?thesis using bad_body [of e] by (simp add: try_body_def)
    next
      case (EsearchResult ids)
      show ?thesis
      proof (cases ids)
        case Nil
        with E Returns EsearchResult show ?thesis using none by (simp add: try_body_def)
      next
        case (Cons i tl)
        show ?thesis
        proof (cases tl)
          case Nil
          note one = E Returns EsearchResult Cons Nil
          obtain r2 S2 where F: "call_efetch W i S = (r2, S2)"
            by (cases "call_efetch W i S")
          show ?thesis
          proof (cases r2)
            case (Raises e)
            with one F show ?thesis using one_raises [of i e] by (simp add: try_body_def)
          next
            case R2: (Returns resp2)
            show ?thesis
            proof (cases resp2)
              case BadXml
              with one F R2 show ?thesis using one_badxml [of i] by (simp add: try_body_def)
            next
              case (Xml root)
              show ?thesis
              proof (cases "Gene_track_discontinue_date root")
                case None
                with one F R2 Xml show ?thesis
                  using one_live [of i root] by (simp add: try_body_def discontinued_def)
              next
                case (Some d)
                show ?thesis
                proof (cases "check_gene_id st")
                  case None
                  with one F R2 Xml Some chk [of i] show ?thesis
                    using one_unbound [of i root] by (simp add: try_body_def discontinued_def)
                next
                  case stale: (Some stale)
                  with one F R2 Xml Some chk [of i] show ?thesis
                    using one_stale [of i root stale] by (simp add: try_body_def discontinued_def)
                qed
              qed
            qed
          qed
        next
          case tl: (Cons i2 tl2)
          note many = E Returns EsearchResult Cons tl
          let ?L = "check_loop W gene ids (ids ! 0) [] (write_log (LogCandidates gene ids) S)"
          obtain r3 S3 where L: "?L = (r3, S3)" by (cases ?L)
          have len: "2 \<le> length ids" using Cons tl by simp
          show ?thesis
          proof (cases r3)
            case (Inl e)
            with many L show ?thesis
              using many_raises [of ids e] len by (simp add: try_body_def)
          next
            case (Inr p)
            obtain gid cand where p: "p = (gid, cand)" by (cases p)
            with many L Inr show ?thesis
              using many_done [of ids gid cand] len by (simp add: try_body_def)
          qed
        qed
      qed
    qed
  qed
qed


lemma check_loop_log:
  "\<exists>l. log_file (snd (check_loop W gene ids gid cand st)) = log_file st @ l"
proof (induction ids arbitrary: st gid cand)
  case Nil
  show ?case by simp
next
  case (Cons c ids)
  show ?case
  proof (cases rule: check_loop_cases [where W = W and c = c and st = st and gene = gene])
    case (raises e)
    then show ?thesis by (simp add: check_loop_raises)
  next
    case badxml
    then show ?thesis by (simp add: check_loop_badxml)
  next
    case (disc root)
    let ?st' = "append_Discontinued_2 (gene, c) (write_log (LogDiscontinued gene c)
        (snd (call_efetch W c (st\<lparr>check_gene_id := Some c\<rparr>))))"
    from Cons [of gid cand ?st'] obtain l where
      "log_file (snd (check_loop W gene ids gid cand ?st')) = log_file ?st' @ l" by blast
    with disc show ?thesis by (simp add: check_loop_discontinued)
  next
    case (exact root)
    then show ?thesis by (simp add: check_loop_exact log_official_def)
  next
    case (other root)
    let ?st' = "log_official gene c (Gene_ref_locus root) (write_log (LogChecking gene c)
        (snd (call_efetch W c (st\<lparr>check_gene_id := Some c\<rparr>))))"
    let ?cand = "if has_alias gene root then cand @ [c] else cand"
    from Cons [of gid ?cand ?st'] obtain l where
      "log_file (snd (check_loop W gene ids gid ?cand ?st')) = log_file ?st' @ l" by blast
    moreover have "\<exists>l'. log_file ?st' = log_file st @ l'"
      by (simp add: log_official_def)
    ultimately show ?thesis using other by (auto simp add: check_loop_next)
  qed
qed

lemma try_body_outputs:
  "case fst (try_body W gene st) of
      Raise e \<Rightarrow>
        gene_id_dict (snd (try_body W gene st)) = gene_id_dict st \<and>
        genes_None (snd (try_body W gene st)) = genes_None st \<and>
        genes_NCBI_Discontinued_1 (snd (try_body W gene st)) = genes_NCBI_Discontinued_1 st
    | Continue \<Rightarrow>
        gene_id_dict (snd (try_body W gene st)) = gene_id_dict st \<and>
        (genes_None (snd (try_body W gene st)) = genes_None st @ [gene] \<and>
           genes_NCBI_Discontinued_1 (snd (try_body W gene st)) = genes_NCBI_Discontinued_1 st \<or>
         genes_None (snd (try_body W gene st)) = genes_None st \<and>
           (\<exists>i. genes_NCBI_Discontinued_1 (snd (try_body W gene st)) =
              genes_NCBI_Discontinued_1 st @ [(gene, i)]))
    | Normal \<Rightarrow>
        (\<exists>i. gene_id_dict (snd (try_body W gene st)) = (gene_id_dict st)(gene \<mapsto> i)) \<and>
        genes_None (snd (try_body W gene st)) = genes_None st \<and>
        genes_NCBI_Discontinued_1 (snd (try_body W gene st)) = genes_NCBI_Discontinued_1 st"
  by (cases rule: try_body_cases [where W = W and gene = gene and st = st])
    (auto simp add: check_loop_frame)

lemma try_body_searched:
  "searched (net (snd (try_body W gene st))) = searched (net st) @ [gene]"
  by (cases rule: try_body_cases [where W = W and gene = gene and st = st])
    (simp_all add: check_loop_frame)

lemma try_body_log:
  "\<exists>l. log_file (snd (try_body W gene st)) = log_file st @ l"
proof (cases rule: try_body_cases [where W = W and gene = gene and st = st])
  case (many_raises ids e)
  let ?L = "write_log (LogCandidates gene ids) (snd (call_esearch W gene st))"
  from check_loop_log [of W gene ids "ids ! 0" "[]" ?L] many_raises show ?thesis by auto
next
  case (many_done ids gid cand)
  let ?L = "write_log (LogCandidates gene ids) (snd (call_esearch W gene st))"
  from check_loop_log [of W gene ids "ids ! 0" "[]" ?L] many_done show ?thesis by auto
qed simp_all

lemma try_body_check_gene_id:
  "\<not> entered_many (snd (try_body W gene st)) \<Longrightarrow>
   check_gene_id (snd (try_body W gene st)) = check_gene_id st"
proof (cases rule: try_body_cases [where W = W and gene = gene and st = st])
  case (many_raises ids e)
  let ?L = "write_log (LogCandidates gene ids) (snd (call_esearch W gene st))"
  assume "\<not> entered_many (snd (try_body W gene st))"
  with check_loop_log [of W gene ids "ids ! 0" "[]" ?L] many_raises show ?thesis
    by (auto simp: entered_many_def)
next
  case (many_done ids gid cand)
  let ?L = "write_log (LogCandidates gene ids) (snd (call_esearch W gene st))"
  assume "\<not> entered_many (snd (try_body W gene st))"
  with check_loop_log [of W gene ids "ids ! 0" "[]" ?L] many_done show ?thesis
    by (auto simp: entered_many_def)
qed simp_all

section \<open>C1: an exact match of the official symbol\<close>

text \<open>
  C1, as amended. Let the search for a symbol return two or more candidates, and let
  the records of the candidates up to rank \<open>k\<close> be fetched successfully. If the
  candidate at rank \<open>k\<close> is not discontinued and its official symbol equals the symbol
  exactly, and no candidate before it that is not discontinued has this official
  symbol, then the dictionary maps the symbol to the candidate at rank \<open>k\<close>, the
  records fetched for the symbol are exactly those of the ranks up to \<open>k\<close> (no later
  candidate is fetched), and the loop ends with an empty list of alias candidates,
  whatever aliases the earlier candidates list.
\<close>

theorem exact_match_wins:
  assumes "search_at W (ncalls st) gene = Some ids" and "2 \<le> length ids" and "k < length ids"
    and "\<forall>j\<le>k. \<exists>root. candidate_record W st ids j = Some root \<and>
           (if j = k then \<not> discontinued root \<and> official root = Some gene
            else discontinued root \<or> official root \<noteq> Some gene)"
  shows "gene_id_dict (iteration W gene st) gene = Some (ids ! k) \<and>
    fetched_ids (net (iteration W gene st)) = fetched_ids (net st) @ take (Suc k) ids \<and>
    fst (check_loop W gene ids (ids ! 0) []
           (write_log (LogCandidates gene ids) (snd (call_esearch W gene st)))) =
      Inr (ids ! k, [])"
proof -
  let ?st1 = "write_log (LogCandidates gene ids) (snd (call_esearch W gene st))"
  have recs: "\<forall>j\<le>k. \<exists>root. record_at W (ncalls ?st1 + j) (ids ! j) = Some root \<and>
           (if j = k then \<not> discontinued root \<and> official root = Some gene
            else discontinued root \<or> official root \<noteq> Some gene)"
    using assms(4) by (simp add: candidate_record_def)
  note loop = check_loop_finds_exact [OF assms(3) recs, where gid = "ids ! 0" and cand = "[]"]
  have "iteration W gene st =
      store gene (ids ! k) [] (snd (check_loop W gene ids (ids ! 0) [] ?st1))"
    using loop by (intro iteration_many_resolved [OF assms(1,2)]) simp
  then show ?thesis using loop by simp
qed

section \<open>C2: the fallback to the top candidate\<close>

text \<open>
  C2. Let the search for a symbol return two or more candidates, all of whose records
  are fetched successfully. If no candidate has an official symbol equal to the
  symbol, and no candidate that is not discontinued lists the symbol among its
  aliases, then the dictionary maps the symbol to the first candidate of the search
  result. Nothing is assumed about that first candidate: it is returned also when
  its own record is discontinued.
\<close>

theorem fallback_is_top_candidate:
  assumes "search_at W (ncalls st) gene = Some ids" and "2 \<le> length ids"
    and "\<forall>j<length ids. \<exists>root. candidate_record W st ids j = Some root \<and>
           official root \<noteq> Some gene \<and> (discontinued root \<or> \<not> has_alias gene root)"
  shows "gene_id_dict (iteration W gene st) gene = Some (ids ! 0) \<and>
    fetched_ids (net (iteration W gene st)) = fetched_ids (net st) @ ids"
proof -
  let ?st1 = "write_log (LogCandidates gene ids) (snd (call_esearch W gene st))"
  have recs: "\<forall>j<length ids. \<exists>root. record_at W (ncalls ?st1 + j) (ids ! j) = Some root \<and>
           (discontinued root \<or> official root \<noteq> Some gene)"
    using assms(3) by (auto simp: candidate_record_def)
  have "\<forall>j<length ids. \<forall>root. record_at W (ncalls ?st1 + j) (ids ! j) = Some root \<longrightarrow>
       discontinued root \<or> \<not> has_alias gene root"
    using assms(3) by (auto simp: candidate_record_def)
  then have none: "alias_matches W gene (ncalls ?st1) ids = []"
    by (rule alias_matches_none)
  note loop = check_loop_no_exact [OF recs, where gid = "ids ! 0" and cand = "[]"]
  have "iteration W gene st =
      store gene (ids ! 0) [] (snd (check_loop W gene ids (ids ! 0) [] ?st1))"
    using loop none by (intro iteration_many_resolved [OF assms(1,2)]) simp
  then show ?thesis using loop by simp
qed

section \<open>C4: the first alias match\<close>

text \<open>
  C4. Let the search for a symbol return two or more candidates, all of whose records
  are fetched successfully, and let no candidate have an official symbol equal to the
  symbol. If the candidate at rank \<open>m\<close> is not discontinued and lists the symbol among
  its aliases, and no candidate before it does both, then the dictionary maps the
  symbol to the candidate at rank \<open>m\<close>: the alias match of the best rank.
\<close>

theorem first_alias_match_wins:
  assumes "search_at W (ncalls st) gene = Some ids" and "2 \<le> length ids"
    and "\<forall>j<length ids. \<exists>root. candidate_record W st ids j = Some root \<and>
           official root \<noteq> Some gene"
    and "m < length ids"
    and "\<exists>root. candidate_record W st ids m = Some root \<and>
           \<not> discontinued root \<and> has_alias gene root"
    and "\<forall>j<m. \<forall>root. candidate_record W st ids j = Some root \<longrightarrow>
           discontinued root \<or> \<not> has_alias gene root"
  shows "gene_id_dict (iteration W gene st) gene = Some (ids ! m) \<and>
    fetched_ids (net (iteration W gene st)) = fetched_ids (net st) @ ids"
proof -
  let ?st1 = "write_log (LogCandidates gene ids) (snd (call_esearch W gene st))"
  have recs: "\<forall>j<length ids. \<exists>root. record_at W (ncalls ?st1 + j) (ids ! j) = Some root \<and>
           (discontinued root \<or> official root \<noteq> Some gene)"
    using assms(3) by (auto simp: candidate_record_def)
  have at: "\<exists>root. record_at W (ncalls ?st1 + m) (ids ! m) = Some root \<and>
           \<not> discontinued root \<and> has_alias gene root"
    using assms(5) by (simp add: candidate_record_def)
  have before: "\<forall>j<m. \<forall>root. record_at W (ncalls ?st1 + j) (ids ! j) = Some root \<longrightarrow>
           discontinued root \<or> \<not> has_alias gene root"
    using assms(6) by (simp add: candidate_record_def)
  from alias_matches_first [OF assms(4) at before] obtain later where
    first: "alias_matches W gene (ncalls ?st1) ids = ids ! m # later" by blast
  note loop = check_loop_no_exact [OF recs, where gid = "ids ! 0" and cand = "[]"]
  have "iteration W gene st =
      store gene (ids ! 0) (ids ! m # later) (snd (check_loop W gene ids (ids ! 0) [] ?st1))"
    using loop first by (intro iteration_many_resolved [OF assms(1,2)]) simp
  then show ?thesis using loop by simp
qed

section \<open>Evaluating the example services\<close>

lemma call_efetch_first:
  "efetch_attempt W (ncalls st) i 1 = Returns r \<Longrightarrow>
   call_efetch W i st =
     (Returns r, st\<lparr>ncalls := Suc (ncalls st), net := net st @ [HttpGet (EFetch i) 1]\<rparr>)"
  by (simp add: call_efetch_def retry_def retry_from_Returns)

lemma call_esearch_first:
  "esearch_attempt W (ncalls st) g 1 = Returns r \<Longrightarrow>
   call_esearch W g st =
     (Returns r, st\<lparr>ncalls := Suc (ncalls st), net := net st @ [HttpGet (ESearch g) 1]\<rparr>)"
  by (simp add: call_esearch_def retry_def retry_from_Returns)

lemma W_ncbi_efetch:
  "call_efetch W_ncbi i st =
     (Returns (Xml (ncbi_record i)),
      st\<lparr>ncalls := Suc (ncalls st), net := net st @ [HttpGet (EFetch i) 1]\<rparr>)"
  by (rule call_efetch_first) (simp add: W_ncbi_def)

lemma W_ncbi_esearch:
  "call_esearch W_ncbi g st =
     (Returns (EsearchResult (ncbi_idlist g)),
      st\<lparr>ncalls := Suc (ncalls st), net := net st @ [HttpGet (ESearch g) 1]\<rparr>)"
  by (rule call_esearch_first) (simp add: W_ncbi_def)

lemma W_ncbi_record_at: "record_at W_ncbi c i = Some (ncbi_record i)"
  by (simp add: record_at_def retry_def retry_from_Returns W_ncbi_def)

lemma W_ncbi_search_at: "search_at W_ncbi c g = Some (ncbi_idlist g)"
  by (simp add: search_at_def retry_def retry_from_Returns W_ncbi_def)

lemma W_ncbi_unchanged: "unchanged W_ncbi"
  by (simp add: unchanged_def W_ncbi_def)

lemmas run_simps =
  main_def initial_def iteration_def try_body_def check_loop.simps(2) store_def
  write_log_def append_None_def append_Discontinued_1_def append_Discontinued_2_def
  log_official_def official_symbol_def Let_def

lemmas ncbi_simps =
  W_ncbi_efetch W_ncbi_esearch ncbi_idlist_def ncbi_record_def gene_record_def

theorem exact_match_wins_witness:
  "search_at W_ncbi (ncalls (initial [''X''])) ''X'' = Some [''10'', ''20'', ''30''] \<and>
   candidate_record W_ncbi (initial [''X'']) [''10'', ''20'', ''30''] 0 = Some (ncbi_record ''10'') \<and>
   candidate_record W_ncbi (initial [''X'']) [''10'', ''20'', ''30''] 1 = Some (ncbi_record ''20'') \<and>
   \<not> discontinued (ncbi_record ''10'') \<and> official (ncbi_record ''10'') = Some ''Y'' \<and>
   has_alias ''X'' (ncbi_record ''10'') \<and>
   \<not> discontinued (ncbi_record ''20'') \<and> official (ncbi_record ''20'') = Some ''X'' \<and>
   gene_id_dict (iteration W_ncbi ''X'' (initial [''X''])) ''X'' = Some ''20'' \<and>
   fetched_ids (net (iteration W_ncbi ''X'' (initial [''X'']))) = [''10'', ''20'']"
proof -
  let ?ids = "[''10'', ''20'', ''30'']"
  have h1: "search_at W_ncbi (ncalls (initial [''X''])) ''X'' = Some ?ids"
    by (simp add: W_ncbi_search_at ncbi_idlist_def)
  have h2: "2 \<le> length ?ids" by simp
  have h3: "1 < length ?ids" by simp
  have r0: "candidate_record W_ncbi (initial [''X'']) ?ids 0 = Some (ncbi_record ''10'')"
    and r1: "candidate_record W_ncbi (initial [''X'']) ?ids 1 = Some (ncbi_record ''20'')"
    by (simp_all add: candidate_record_def W_ncbi_record_at)
  have a0: "\<not> discontinued (ncbi_record ''10'')" "official (ncbi_record ''10'') = Some ''Y''"
    "has_alias ''X'' (ncbi_record ''10'')"
    and a1: "\<not> discontinued (ncbi_record ''20'')" "official (ncbi_record ''20'') = Some ''X''"
    by (simp_all add: discontinued_def official_def has_alias_def official_symbol_def
        ncbi_record_def gene_record_def)
  have h4: "\<forall>j\<le>1. \<exists>root. candidate_record W_ncbi (initial [''X'']) ?ids j = Some root \<and>
           (if j = 1 then \<not> discontinued root \<and> official root = Some ''X''
            else discontinued root \<or> official root \<noteq> Some ''X'')"
  proof (intro allI impI)
    fix j :: nat assume "j \<le> 1"
    then have "j = 0 \<or> j = 1" by auto
    then show "\<exists>root. candidate_record W_ncbi (initial [''X'']) ?ids j = Some root \<and>
           (if j = 1 then \<not> discontinued root \<and> official root = Some ''X''
            else discontinued root \<or> official root \<noteq> Some ''X'')"
      using r0 r1 a0 a1 by auto
  qed
  have n: "fetched_ids (net (initial [''X''])) = []"
    by (simp add: initial_def fetched_ids_def)
  from exact_match_wins [OF h1 h2 h3 h4] h1 r0 r1 a0 a1 n show ?thesis
    by simp
qed

text \<open>
  C1 as stated does not ask that the candidate at rank \<open>k\<close> is itself not discontinued.
  For the symbol \<open>K\<close> the candidate at rank 1 has the official symbol \<open>K\<close> and no
  earlier candidate has it, but its record is discontinued: line 172 skips it before
  its official symbol is read, and the symbol resolves to the alias match at rank 0.
\<close>

theorem exact_match_counterexample:
  "search_at W_ncbi (ncalls (initial [''K''])) ''K'' = Some [''11'', ''12''] \<and>
   candidate_record W_ncbi (initial [''K'']) [''11'', ''12''] 1 = Some (ncbi_record ''12'') \<and>
   official (ncbi_record ''12'') = Some ''K'' \<and>
   candidate_record W_ncbi (initial [''K'']) [''11'', ''12''] 0 = Some (ncbi_record ''11'') \<and>
   official (ncbi_record ''11'') \<noteq> Some ''K'' \<and>
   discontinued (ncbi_record ''12'') \<and>
   gene_id_dict (iteration W_ncbi ''K'' (initial [''K''])) ''K'' = Some ''11'' \<and>
   gene_id_dict (iteration W_ncbi ''K'' (initial [''K''])) ''K'' \<noteq> Some ([''11'', ''12''] ! 1)"
proof -
  have "search_at W_ncbi (ncalls (initial [''K''])) ''K'' = Some [''11'', ''12'']"
    by (simp add: W_ncbi_search_at ncbi_idlist_def)
  moreover have "candidate_record W_ncbi (initial [''K'']) [''11'', ''12''] 1 = Some (ncbi_record ''12'')"
    "candidate_record W_ncbi (initial [''K'']) [''11'', ''12''] 0 = Some (ncbi_record ''11'')"
    by (simp_all add: candidate_record_def W_ncbi_record_at)
  moreover have "official (ncbi_record ''12'') = Some ''K''"
    "official (ncbi_record ''11'') \<noteq> Some ''K''" "discontinued (ncbi_record ''12'')"
    by (simp_all add: discontinued_def official_def official_symbol_def
        ncbi_record_def gene_record_def)
  moreover have "gene_id_dict (iteration W_ncbi ''K'' (initial [''K''])) ''K'' = Some ''11''"
    by (simp add: run_simps ncbi_simps)
  ultimately show ?thesis by simp
qed

theorem fallback_is_top_candidate_witness:
  "search_at W_ncbi (ncalls (initial [''Q''])) ''Q'' = Some [''40'', ''50''] \<and>
   candidate_record W_ncbi (initial [''Q'']) [''40'', ''50''] 0 = Some (ncbi_record ''40'') \<and>
   candidate_record W_ncbi (initial [''Q'']) [''40'', ''50''] 1 = Some (ncbi_record ''50'') \<and>
   discontinued (ncbi_record ''40'') \<and> official (ncbi_record ''40'') = Some ''OLD'' \<and>
   \<not> has_alias ''Q'' (ncbi_record ''50'') \<and> official (ncbi_record ''50'') = Some ''R'' \<and>
   gene_id_dict (iteration W_ncbi ''Q'' (initial [''Q''])) ''Q'' = Some ''40'' \<and>
   fetched_ids (net (iteration W_ncbi ''Q'' (initial [''Q'']))) = [''40'', ''50'']"
proof -
  let ?ids = "[''40'', ''50'']"
  have h1: "search_at W_ncbi (ncalls (initial [''Q''])) ''Q'' = Some ?ids"
    by (simp add: W_ncbi_search_at ncbi_idlist_def)
  have h2: "2 \<le> length ?ids" by simp
  have r0: "candidate_record W_ncbi (initial [''Q'']) ?ids 0 = Some (ncbi_record ''40'')"
    and r1: "candidate_record W_ncbi (initial [''Q'']) ?ids 1 = Some (ncbi_record ''50'')"
    by (simp_all add: candidate_record_def W_ncbi_record_at)
  have a0: "discontinued (ncbi_record ''40'')" "official (ncbi_record ''40'') = Some ''OLD''"
    and a1: "\<not> has_alias ''Q'' (ncbi_record ''50'')" "official (ncbi_record ''50'') = Some ''R''"
    by (simp_all add: discontinued_def official_def has_alias_def official_symbol_def
        ncbi_record_def gene_record_def)
  have h3: "\<forall>j<length ?ids. \<exists>root. candidate_record W_ncbi (initial [''Q'']) ?ids j = Some root \<and>
           official root \<noteq> Some ''Q'' \<and> (discontinued root \<or> \<not> has_alias ''Q'' root)"
  proof (intro allI impI)
    fix j :: nat assume "j < length ?ids"
    then have "j = 0 \<or> j = 1" by auto
    then show "\<exists>root. candidate_record W_ncbi (initial [''Q'']) ?ids j = Some root \<and>
           official root \<noteq> Some ''Q'' \<and> (discontinued root \<or> \<not> has_alias ''Q'' root)"
      using r0 r1 a0 a1 by auto
  qed
  have n: "fetched_ids (net (initial [''Q''])) = []"
    by (simp add: initial_def fetched_ids_def)
  from fallback_is_top_candidate [OF h1 h2 h3] h1 r0 r1 a0 a1 n show ?thesis
    by simp
qed

theorem first_alias_match_wins_witness:
  "search_at W_ncbi (ncalls (initial [''A''])) ''A'' = Some [''60'', ''70'', ''80''] \<and>
   candidate_record W_ncbi (initial [''A'']) [''60'', ''70'', ''80''] 0 = Some (ncbi_record ''60'') \<and>
   candidate_record W_ncbi (initial [''A'']) [''60'', ''70'', ''80''] 1 = Some (ncbi_record ''70'') \<and>
   candidate_record W_ncbi (initial [''A'']) [''60'', ''70'', ''80''] 2 = Some (ncbi_record ''80'') \<and>
   official (ncbi_record ''60'') = Some ''B'' \<and> official (ncbi_record ''70'') = Some ''C'' \<and>
   official (ncbi_record ''80'') = Some ''E'' \<and>
   \<not> has_alias ''A'' (ncbi_record ''60'') \<and>
   \<not> discontinued (ncbi_record ''70'') \<and> has_alias ''A'' (ncbi_record ''70'') \<and>
   \<not> discontinued (ncbi_record ''80'') \<and> has_alias ''A'' (ncbi_record ''80'') \<and>
   gene_id_dict (iteration W_ncbi ''A'' (initial [''A''])) ''A'' = Some ''70''"
proof -
  let ?ids = "[''60'', ''70'', ''80'']"
  have h1: "search_at W_ncbi (ncalls (initial [''A''])) ''A'' = Some ?ids"
    by (simp add: W_ncbi_search_at ncbi_idlist_def)
  have h2: "2 \<le> length ?ids" by simp
  have r0: "candidate_record W_ncbi (initial [''A'']) ?ids 0 = Some (ncbi_record ''60'')"
    and r1: "candidate_record W_ncbi (initial [''A'']) ?ids 1 = Some (ncbi_record ''70'')"
    and r2: "candidate_record W_ncbi (initial [''A'']) ?ids 2 = Some (ncbi_record ''80'')"
    by (simp_all add: candidate_record_def W_ncbi_record_at)
  have o: "official (ncbi_record ''60'') = Some ''B''" "official (ncbi_record ''70'') = Some ''C''"
    "official (ncbi_record ''80'') = Some ''E''"
    and a: "\<not> has_alias ''A'' (ncbi_record ''60'')"
    "\<not> discontinued (ncbi_record ''70'')" "has_alias ''A'' (ncbi_record ''70'')"
    "\<not> discontinued (ncbi_record ''80'')" "has_alias ''A'' (ncbi_record ''80'')"
    by (simp_all add: discontinued_def official_def has_alias_def official_symbol_def
        ncbi_record_def gene_record_def)
  have h3: "\<forall>j<length ?ids. \<exists>root. candidate_record W_ncbi (initial [''A'']) ?ids j = Some root \<and>
           official root \<noteq> Some ''A''"
  proof (intro allI impI)
    fix j :: nat assume "j < length ?ids"
    then have "j = 0 \<or> j = 1 \<or> j = 2" by auto
    then show "\<exists>root. candidate_record W_ncbi (initial [''A'']) ?ids j = Some root \<and>
           official root \<noteq> Some ''A''"
      using r0 r1 r2 o by auto
  qed
  have h4: "1 < length ?ids" by simp
  have h5: "\<exists>root. candidate_record W_ncbi (initial [''A'']) ?ids 1 = Some root \<and>
           \<not> discontinued root \<and> has_alias ''A'' root"
    using r1 a by simp
  have h6: "\<forall>j<1. \<forall>root. candidate_record W_ncbi (initial [''A'']) ?ids j = Some root \<longrightarrow>
           discontinued root \<or> \<not> has_alias ''A'' root"
    using r0 a by simp
  from first_alias_match_wins [OF h1 h2 h3 h4 h5 h6] h1 r0 r1 r2 o a show ?thesis
    by simp
qed

section \<open>C3: a discontinued record in the dictionary\<close>

text \<open>
  C3 says that a candidate whose record is discontinued is never the identifier stored
  for a symbol. The loop skips such a candidate (line 165: discontinued identifiers
  are not considered), and the branch of a single candidate refuses it, but
  \<^verbatim>\<open>gene_id\<close> is set to \<^verbatim>\<open>ids_list[0]\<close> before the loop and stays so when
  nothing matches. For the symbol \<open>Q\<close> the search returns \<open>40\<close> and \<open>50\<close>, the record
  of \<open>40\<close> is discontinued, nothing matches, and the run stores \<open>40\<close> for \<open>Q\<close>.
\<close>

theorem discontinued_top_candidate_stored:
  "search_at W_ncbi 0 ''Q'' = Some [''40'', ''50''] \<and>
   record_at W_ncbi 1 ''40'' = Some (ncbi_record ''40'') \<and>
   discontinued (ncbi_record ''40'') \<and>
   gene_id_dict (main W_ncbi [''Q'']) ''Q'' = Some ''40'' \<and>
   genes_NCBI_Discontinued_2 (main W_ncbi [''Q'']) = [(''Q'', ''40'')]"
proof -
  have "search_at W_ncbi 0 ''Q'' = Some [''40'', ''50'']"
    by (simp add: W_ncbi_search_at ncbi_idlist_def)
  moreover have "record_at W_ncbi 1 ''40'' = Some (ncbi_record ''40'')"
    by (simp add: W_ncbi_record_at)
  moreover have "discontinued (ncbi_record ''40'')"
    by (simp add: discontinued_def ncbi_record_def gene_record_def)
  moreover have "gene_id_dict (main W_ncbi [''Q'']) ''Q'' = Some ''40''"
    by (simp add: run_simps ncbi_simps)
  moreover have "genes_NCBI_Discontinued_2 (main W_ncbi [''Q'']) = [(''Q'', ''40'')]"
    by (simp add: run_simps ncbi_simps)
  ultimately show ?thesis by simp
qed

section \<open>C6: a single discontinued candidate\<close>

text \<open>
  C6 says that a symbol whose only candidate is discontinued is recorded as unresolved
  for that reason. Line 140 formats the log message with \<^verbatim>\<open>check_gene_id\<close>, the
  variable of the loop of the other branch, where \<^verbatim>\<open>gene_id\<close> is meant. In a run
  on the symbol \<open>D\<close> alone the variable is unbound: the iteration ends in the handler
  of line 228 with \<^verbatim>\<open>NameError\<close>, the symbol is written to
  \<^verbatim>\<open>genes_None.txt\<close>, and \<^verbatim>\<open>genes_NCBI_Discontinued_1.txt\<close> stays empty.
\<close>

theorem sole_discontinued_candidate_first:
  "search_at W_ncbi 0 ''D'' = Some [''90''] \<and>
   record_at W_ncbi 1 ''90'' = Some (ncbi_record ''90'') \<and>
   discontinued (ncbi_record ''90'') \<and>
   gene_id_dict (main W_ncbi [''D'']) ''D'' = None \<and>
   genes_NCBI_Discontinued_1 (main W_ncbi [''D'']) = [] \<and>
   genes_None (main W_ncbi [''D'']) = [''D''] \<and>
   log_file (main W_ncbi [''D'']) =
     [LogGeneCount 1, LogFailed ''D'' (NameError ''check_gene_id'')]"
proof -
  have "search_at W_ncbi 0 ''D'' = Some [''90'']"
    by (simp add: W_ncbi_search_at ncbi_idlist_def)
  moreover have "record_at W_ncbi 1 ''90'' = Some (ncbi_record ''90'')"
    by (simp add: W_ncbi_record_at)
  moreover have "discontinued (ncbi_record ''90'')"
    by (simp add: discontinued_def ncbi_record_def gene_record_def)
  moreover have "main W_ncbi [''D''] =
      \<lparr>gene_id_dict = Map.empty, genes_None = [''D''], genes_NCBI_Discontinued_1 = [],
       genes_NCBI_Discontinued_2 = [],
       log_file = [LogGeneCount 1, LogFailed ''D'' (NameError ''check_gene_id'')],
       check_gene_id = None, ncalls = 2,
       net = [HttpGet (ESearch ''D'') 1, HttpGet (EFetch ''90'') 1]\<rparr>"
    by (simp add: run_simps ncbi_simps)
  ultimately show ?thesis by simp
qed

section \<open>C7: the outcome for a symbol and the symbols before it\<close>

text \<open>
  C7 says that the outcome for a symbol does not depend on the symbols resolved before
  it when the service is unchanged. The read of \<^verbatim>\<open>check_gene_id\<close> in line 140
  makes it depend on them: alone, the symbol \<open>D\<close> ends in the handler and in
  \<^verbatim>\<open>genes_None.txt\<close>; after the symbol \<open>X\<close>, whose loop has bound the variable,
  the same symbol is written to \<^verbatim>\<open>genes_NCBI_Discontinued_1.txt\<close>, and its log
  message names the identifier \<open>20\<close> of the other symbol.
\<close>

theorem outcome_depends_on_history:
  "unchanged W_ncbi \<and>
   genes_None (main W_ncbi [''D'']) = [''D''] \<and>
   genes_NCBI_Discontinued_1 (main W_ncbi [''D'']) = [] \<and>
   genes_None (main W_ncbi [''X'', ''D'']) = [] \<and>
   genes_NCBI_Discontinued_1 (main W_ncbi [''X'', ''D'']) = [(''D'', ''90'')] \<and>
   LogUniqueDiscontinued ''D'' ''20'' \<in> set (log_file (main W_ncbi [''X'', ''D'']))"
proof -
  have "genes_None (main W_ncbi [''D'']) = [''D'']"
    "genes_NCBI_Discontinued_1 (main W_ncbi [''D'']) = []"
    by (simp_all add: run_simps ncbi_simps)
  moreover have "genes_None (main W_ncbi [''X'', ''D'']) = []"
    "genes_NCBI_Discontinued_1 (main W_ncbi [''X'', ''D'']) = [(''D'', ''90'')]"
    "LogUniqueDiscontinued ''D'' ''20'' \<in> set (log_file (main W_ncbi [''X'', ''D'']))"
    by (simp_all add: run_simps ncbi_simps)
  ultimately show ?thesis using W_ncbi_unchanged by simp
qed

section \<open>The whole run\<close>

lemma iteration_cases:
  obtains
    (resolved) i where "fst (try_body W gene st) = Normal"
      "gene_id_dict (iteration W gene st) = (gene_id_dict st)(gene \<mapsto> i)"
      "genes_None (iteration W gene st) = genes_None st"
      "genes_NCBI_Discontinued_1 (iteration W gene st) = genes_NCBI_Discontinued_1 st"
  | (skipped) "fst (try_body W gene st) = Continue"
      "gene_id_dict (iteration W gene st) = gene_id_dict st"
      "genes_None (iteration W gene st) = genes_None st @ [gene]"
      "genes_NCBI_Discontinued_1 (iteration W gene st) = genes_NCBI_Discontinued_1 st"
  | (discontinued) i where "fst (try_body W gene st) = Continue"
      "gene_id_dict (iteration W gene st) = gene_id_dict st"
      "genes_None (iteration W gene st) = genes_None st"
      "genes_NCBI_Discontinued_1 (iteration W gene st) = genes_NCBI_Discontinued_1 st @ [(gene, i)]"
  | (failed) e where "fst (try_body W gene st) = Raise e"
      "gene_id_dict (iteration W gene st) = gene_id_dict st"
      "genes_None (iteration W gene st) = genes_None st @ [gene]"
      "genes_NCBI_Discontinued_1 (iteration W gene st) = genes_NCBI_Discontinued_1 st"
proof -
  obtain fl st' where T: "try_body W gene st = (fl, st')" by (cases "try_body W gene st")
  note out = try_body_outputs [of W gene st]
  show ?thesis
  proof (cases fl)
    case Normal
    with T out obtain i where "gene_id_dict st' = (gene_id_dict st)(gene \<mapsto> i)" by auto
    with T out Normal show ?thesis using resolved [of i] by (simp add: iteration_def)
  next
    case Continue
    with T out consider
      "genes_None st' = genes_None st @ [gene]"
        "genes_NCBI_Discontinued_1 st' = genes_NCBI_Discontinued_1 st"
      | i where "genes_None st' = genes_None st"
        "genes_NCBI_Discontinued_1 st' = genes_NCBI_Discontinued_1 st @ [(gene, i)]"
      by auto
    then show ?thesis
    proof cases
      case 1
      with T out Continue show ?thesis using skipped by (simp add: iteration_def)
    next
      case (2 i)
      with T out Continue show ?thesis using discontinued [of i] by (simp add: iteration_def)
    qed
  next
    case (Raise e)
    with T out show ?thesis using failed [of e] by (simp add: iteration_def)
  qed
qed

lemma iteration_searched:
  "searched (net (iteration W gene st)) = searched (net st) @ [gene]"
  using try_body_searched [of W gene st]
  by (cases "try_body W gene st"; cases "fst (try_body W gene st)")
    (simp_all add: iteration_def)

lemma for_genes_searched:
  "searched (net (for_genes W genes st)) = searched (net st) @ genes"
  by (induction genes arbitrary: st) (simp_all add: iteration_searched)

lemma for_genes_append:
  "for_genes W (xs @ ys) st = for_genes W ys (for_genes W xs st)"
  by (induction xs arbitrary: st) simp_all

lemma iteration_log:
  "\<exists>l. log_file (iteration W gene st) = log_file st @ l"
  using try_body_log [of W gene st]
  by (cases "try_body W gene st"; cases "fst (try_body W gene st)")
    (auto simp add: iteration_def)

lemma iteration_failed_log:
  "fst (try_body W gene st) = Raise e \<Longrightarrow>
   \<exists>l. log_file (iteration W gene st) = log_file st @ l @ [LogFailed gene e]"
  using try_body_log [of W gene st]
  by (cases "try_body W gene st") (auto simp add: iteration_def)

lemma iteration_entered_many:
  "entered_many st \<Longrightarrow> entered_many (iteration W gene st)"
  using iteration_log [of W gene st] by (auto simp: entered_many_def)

lemma for_genes_entered_many:
  "entered_many st \<Longrightarrow> entered_many (for_genes W genes st)"
  by (induction genes arbitrary: st) (simp_all add: iteration_entered_many)

lemma iteration_check_gene_id:
  "\<not> entered_many (iteration W gene st) \<Longrightarrow>
   check_gene_id (iteration W gene st) = check_gene_id st"
  using try_body_check_gene_id [of W gene st]
  by (cases "try_body W gene st"; cases "fst (try_body W gene st)")
    (auto simp add: iteration_def entered_many_def write_log_def)

lemma for_genes_unbound:
  "check_gene_id st = None \<Longrightarrow> \<not> entered_many (for_genes W genes st) \<Longrightarrow>
   check_gene_id (for_genes W genes st) = None"
proof (induction genes arbitrary: st)
  case Nil
  then show ?case by simp
next
  case (Cons g genes)
  have "\<not> entered_many (iteration W g st)"
    using Cons.prems(2) for_genes_entered_many [of "iteration W g st" W genes] by auto
  then have "check_gene_id (iteration W g st) = None"
    using iteration_check_gene_id [of W g st] Cons.prems(1) by simp
  then show ?case using Cons.IH [of "iteration W g st"] Cons.prems(2) by simp
qed

section \<open>C10: the unbound loop variable\<close>

text \<open>
  C10. Let the run reach a symbol before any symbol has entered the loop over several
  candidates. If the search for the symbol returns exactly one candidate and the
  record of that candidate is discontinued, then the body of the \<^verbatim>\<open>try\<close>
  statement raises \<^verbatim>\<open>NameError\<close> for \<^verbatim>\<open>check_gene_id\<close>: the handler writes this
  failure to the log and the symbol to \<^verbatim>\<open>genes_None.txt\<close>, and nothing is written
  to \<^verbatim>\<open>genes_NCBI_Discontinued_1.txt\<close> or to the dictionary.
\<close>

theorem sole_discontinued_raises_NameError:
  assumes "st = for_genes W earlier (initial all_genes)"
    and "\<not> entered_many st"
    and "search_at W (ncalls st) gene = Some [i]"
    and "candidate_record W st [i] 0 = Some root" and "discontinued root"
  shows "fst (try_body W gene st) = Raise (NameError ''check_gene_id'') \<and>
    log_file (iteration W gene st) = log_file st @ [LogFailed gene (NameError ''check_gene_id'')] \<and>
    genes_None (iteration W gene st) = genes_None st @ [gene] \<and>
    genes_NCBI_Discontinued_1 (iteration W gene st) = genes_NCBI_Discontinued_1 st \<and>
    gene_id_dict (iteration W gene st) = gene_id_dict st"
proof -
  let ?S = "snd (call_esearch W gene st)"
  have "check_gene_id (initial all_genes) = None" by (simp add: initial_def)
  then have unbound: "check_gene_id st = None"
    using assms(1,2) for_genes_unbound [of "initial all_genes" W earlier] by simp
  have search: "fst (call_esearch W gene st) = Returns (EsearchResult [i])"
    using assms(3) by (rule call_esearch_result)
  have "record_at W (ncalls ?S) i = Some root"
    using assms(4) by (simp add: candidate_record_def)
  then have fetch: "fst (call_efetch W i ?S) = Returns (Xml root)"
    by (rule call_efetch_record)
  have body: "try_body W gene st = (Raise (NameError ''check_gene_id''), snd (call_efetch W i ?S))"
    using search fetch unbound assms(5)
    by (cases rule: try_body_cases [where W = W and gene = gene and st = st]) auto
  then show ?thesis by (simp add: iteration_def)
qed

theorem sole_discontinued_raises_NameError_witness:
  "\<not> entered_many (for_genes W_ncbi [''TP53''] (initial [''TP53'', ''D''])) \<and>
   search_at W_ncbi (ncalls (for_genes W_ncbi [''TP53''] (initial [''TP53'', ''D''])))  ''D'' = Some [''90''] \<and>
   candidate_record W_ncbi (for_genes W_ncbi [''TP53''] (initial [''TP53'', ''D''])) [''90''] 0 =
     Some (ncbi_record ''90'') \<and>
   discontinued (ncbi_record ''90'') \<and>
   fst (try_body W_ncbi ''D'' (for_genes W_ncbi [''TP53''] (initial [''TP53'', ''D'']))) =
     Raise (NameError ''check_gene_id'') \<and>
   genes_None (main W_ncbi [''TP53'', ''D'']) = [''D''] \<and>
   genes_NCBI_Discontinued_1 (main W_ncbi [''TP53'', ''D'']) = []"
proof -
  let ?st = "for_genes W_ncbi [''TP53''] (initial [''TP53'', ''D''])"
  have h2: "\<not> entered_many ?st"
    by (simp add: entered_many_def run_simps ncbi_simps)
  have h3: "search_at W_ncbi (ncalls ?st) ''D'' = Some [''90'']"
    by (simp add: W_ncbi_search_at ncbi_idlist_def)
  have h4: "candidate_record W_ncbi ?st [''90''] 0 = Some (ncbi_record ''90'')"
    by (simp add: candidate_record_def W_ncbi_record_at)
  have h5: "discontinued (ncbi_record ''90'')"
    by (simp add: discontinued_def ncbi_record_def gene_record_def)
  have files: "genes_None ?st = []" "genes_NCBI_Discontinued_1 ?st = []"
    by (simp_all add: run_simps ncbi_simps)
  have run: "main W_ncbi [''TP53'', ''D''] = iteration W_ncbi ''D'' ?st"
    by (simp add: main_def)
  from sole_discontinued_raises_NameError [OF refl h2 h3 h4 h5] h2 h3 h4 h5 files run
  show ?thesis by simp
qed

section \<open>C8: a failure stays with its symbol\<close>

text \<open>
  C8. Let the body of the \<^verbatim>\<open>try\<close> statement raise an exception \<open>e\<close> for a symbol of
  the input, whatever the exception is (\<^verbatim>\<open>RetryError\<close> after exhausted retries,
  \<^verbatim>\<open>ParseError\<close>, or another one). Then this iteration stores nothing in the
  dictionary, appends the symbol to \<^verbatim>\<open>genes_None.txt\<close> and ends the log with the
  failure and its cause \<open>e\<close>; the run continues with the later symbols from the state
  so reached; and the searches of the whole run are exactly the input symbols, each
  once and in input order.
\<close>

theorem failure_stays_with_symbol:
  assumes "all_genes = earlier @ gene # later"
    and "st = for_genes W earlier (initial all_genes)"
    and "fst (try_body W gene st) = Raise e"
  shows "gene_id_dict (iteration W gene st) = gene_id_dict st \<and>
    genes_None (iteration W gene st) = genes_None st @ [gene] \<and>
    (\<exists>l. log_file (iteration W gene st) = log_file st @ l @ [LogFailed gene e]) \<and>
    main W all_genes = for_genes W later (iteration W gene st) \<and>
    searched (net (main W all_genes)) = all_genes"
proof -
  have "gene_id_dict (iteration W gene st) = gene_id_dict st \<and>
      genes_None (iteration W gene st) = genes_None st @ [gene]"
    using assms(3) by (cases rule: iteration_cases [where W = W and gene = gene and st = st]) simp_all
  moreover have "\<exists>l. log_file (iteration W gene st) = log_file st @ l @ [LogFailed gene e]"
    using assms(3) by (rule iteration_failed_log)
  moreover have "main W all_genes = for_genes W later (iteration W gene st)"
    by (simp add: main_def assms(2) for_genes_append) (simp add: assms(1) for_genes_append)
  moreover have "searched (net (main W all_genes)) = all_genes"
    by (simp add: main_def for_genes_searched) (simp add: initial_def searched_def)
  ultimately show ?thesis by blast
qed

lemma W_down_esearch_TP53:
  "call_esearch W_down ''TP53'' st =
     (Raises RetryError,
      st\<lparr>ncalls := Suc (ncalls st), net := net st @ attempts (ESearch ''TP53'') 3 6 1\<rparr>)"
  using retry_from_exhausted [of 1 "esearch_attempt W_down (ncalls st) ''TP53''" 6 3 "ESearch ''TP53''"]
  by (simp add: call_esearch_def retry_def W_down_def)

lemma W_down_esearch_other:
  "g \<noteq> ''TP53'' \<Longrightarrow> call_esearch W_down g st =
     (Raises (OtherException ''ValueError''),
      st\<lparr>ncalls := Suc (ncalls st), net := net st @ attempts (ESearch g) 3 3 1\<rparr>)"
  using retry_from_fatal [of 1 3 "esearch_attempt W_down (ncalls st) g"
      "OtherException ''ValueError''" 6 3 "ESearch g"]
  by (simp add: call_esearch_def retry_def W_down_def)

theorem failure_stays_with_symbol_witness:
  "fst (try_body W_down ''TP53'' (initial [''TP53'', ''BRCA1''])) = Raise RetryError \<and>
   gene_id_dict (iteration W_down ''TP53'' (initial [''TP53'', ''BRCA1''])) = Map.empty \<and>
   genes_None (iteration W_down ''TP53'' (initial [''TP53'', ''BRCA1''])) = [''TP53''] \<and>
   log_file (iteration W_down ''TP53'' (initial [''TP53'', ''BRCA1''])) =
     [LogGeneCount 2, LogFailed ''TP53'' RetryError] \<and>
   main W_down [''TP53'', ''BRCA1''] =
     for_genes W_down [''BRCA1''] (iteration W_down ''TP53'' (initial [''TP53'', ''BRCA1''])) \<and>
   searched (net (main W_down [''TP53'', ''BRCA1''])) = [''TP53'', ''BRCA1''] \<and>
   genes_None (main W_down [''TP53'', ''BRCA1'']) = [''TP53'', ''BRCA1'']"
proof -
  let ?all = "[''TP53'', ''BRCA1'']"
  have h1: "?all = [] @ ''TP53'' # [''BRCA1'']" by simp
  have h2: "initial ?all = for_genes W_down [] (initial ?all)" by simp
  have h3: "fst (try_body W_down ''TP53'' (initial ?all)) = Raise RetryError"
    by (simp add: try_body_def W_down_esearch_TP53)
  have l: "log_file (iteration W_down ''TP53'' (initial ?all)) =
      [LogGeneCount 2, LogFailed ''TP53'' RetryError]"
    by (simp add: run_simps W_down_esearch_TP53)
  have g: "genes_None (main W_down ?all) = ?all"
    by (simp add: run_simps W_down_esearch_TP53 W_down_esearch_other)
  have i: "gene_id_dict (initial ?all) = Map.empty" "genes_None (initial ?all) = []"
    by (simp_all add: initial_def)
  note c = failure_stays_with_symbol [OF h1 h2 h3]
  have c1: "gene_id_dict (iteration W_down ''TP53'' (initial ?all)) = Map.empty"
    using c i(1) by simp
  have c2: "genes_None (iteration W_down ''TP53'' (initial ?all)) = [''TP53'']"
    using c i(2) by simp
  have c3: "main W_down ?all = for_genes W_down [''BRCA1''] (iteration W_down ''TP53'' (initial ?all))"
    using c by blast
  have c4: "searched (net (main W_down ?all)) = ?all"
    using c by blast
  from h3 c1 c2 l c3 c4 g show ?thesis by blast
qed

section \<open>Disjoint outputs\<close>

lemma iteration_disjoint:
  assumes "gene \<notin> D" and "dom (gene_id_dict st) \<subseteq> D" and "unresolved st \<subseteq> D"
    and "dom (gene_id_dict st) \<inter> unresolved st = {}"
  shows "dom (gene_id_dict (iteration W gene st)) \<subseteq> insert gene D \<and>
    unresolved (iteration W gene st) \<subseteq> insert gene D \<and>
    dom (gene_id_dict (iteration W gene st)) \<inter> unresolved (iteration W gene st) = {}"
proof (cases rule: iteration_cases [where W = W and gene = gene and st = st])
  case (resolved i)
  then show ?thesis using assms by (auto simp: unresolved_def)
next
  case skipped
  then show ?thesis using assms by (auto simp: unresolved_def)
next
  case (discontinued i)
  then show ?thesis using assms by (auto simp: unresolved_def)
next
  case (failed e)
  then show ?thesis using assms by (auto simp: unresolved_def)
qed

lemma for_genes_disjoint:
  "distinct genes \<Longrightarrow> set genes \<inter> D = {} \<Longrightarrow>
   dom (gene_id_dict st) \<subseteq> D \<Longrightarrow> unresolved st \<subseteq> D \<Longrightarrow>
   dom (gene_id_dict st) \<inter> unresolved st = {} \<Longrightarrow>
   dom (gene_id_dict (for_genes W genes st)) \<inter> unresolved (for_genes W genes st) = {}"
proof (induction genes arbitrary: st D)
  case Nil
  then show ?case by simp
next
  case (Cons g genes)
  have "g \<notin> D" using Cons.prems(2) by auto
  from iteration_disjoint [OF this Cons.prems(3,4,5), of W]
  have *: "dom (gene_id_dict (iteration W g st)) \<subseteq> insert g D"
    "unresolved (iteration W g st) \<subseteq> insert g D"
    "dom (gene_id_dict (iteration W g st)) \<inter> unresolved (iteration W g st) = {}"
    by auto
  have "distinct genes" "set genes \<inter> insert g D = {}"
    using Cons.prems(1,2) by auto
  from Cons.IH [OF this *] show ?case by simp
qed

lemma unchanged_efetch:
  "unchanged W \<Longrightarrow>
   fst (call_efetch W i st) = fst (retry 6 3 (EFetch i) (efetch_attempt W 0 i))"
proof -
  assume "unchanged W"
  then have "efetch_attempt W (ncalls st) = efetch_attempt W 0"
    unfolding unchanged_def by blast
  then show ?thesis by (simp add: call_efetch_def split_beta)
qed

lemma unchanged_esearch:
  "unchanged W \<Longrightarrow>
   fst (call_esearch W g st) = fst (retry 6 3 (ESearch g) (esearch_attempt W 0 g))"
proof -
  assume "unchanged W"
  then have "esearch_attempt W (ncalls st) = esearch_attempt W 0"
    unfolding unchanged_def by blast
  then show ?thesis by (simp add: call_esearch_def split_beta)
qed

lemma check_loop_unchanged:
  assumes "unchanged W"
  shows "isl (fst (check_loop W gene ids gid cand st)) =
    isl (fst (check_loop W gene ids gid' cand' st'))"
proof (induction ids arbitrary: st st' gid gid' cand cand')
  case Nil
  show ?case by simp
next
  case (Cons c ids)
  let ?F = "call_efetch W c (st\<lparr>check_gene_id := Some c\<rparr>)"
  let ?F' = "call_efetch W c (st'\<lparr>check_gene_id := Some c\<rparr>)"
  have same: "fst ?F' = fst ?F"
    using assms by (simp add: unchanged_efetch)
  show ?case
  proof (cases rule: check_loop_cases [where W = W and c = c and st = st and gene = gene])
    case (raises e)
    then show ?thesis using same by (simp add: check_loop_raises)
  next
    case badxml
    then show ?thesis using same by (simp add: check_loop_badxml)
  next
    case (disc root)
    then have "fst ?F' = Returns (Xml root)" using same by simp
    with disc show ?thesis
      by (simp add: check_loop_discontinued Cons [of gid cand _ gid' cand'])
  next
    case (exact root)
    then show ?thesis using same by (simp add: check_loop_exact)
  next
    case (other root)
    then have "fst ?F' = Returns (Xml root)" using same by simp
    with other show ?thesis
      using Cons [of gid "if has_alias gene root then cand @ [c] else cand" _
          gid' "if has_alias gene root then cand' @ [c] else cand'"]
      by (simp add: check_loop_next)
  qed
qed

lemma try_body_Normal:
  "fst (try_body W gene st) = Normal \<longleftrightarrow>
     (case fst (call_esearch W gene st) of
        Returns (EsearchResult ids) \<Rightarrow>
          if length ids = 0 then False
          else if length ids = 1 then
            (case fst (call_efetch W (ids ! 0) (snd (call_esearch W gene st))) of
               Returns (Xml root) \<Rightarrow> \<not> discontinued root
             | _ \<Rightarrow> False)
          else \<not> isl (fst (check_loop W gene ids (ids ! 0) []
                  (write_log (LogCandidates gene ids) (snd (call_esearch W gene st)))))
      | _ \<Rightarrow> False)"
  by (cases rule: try_body_cases [where W = W and gene = gene and st = st]) auto

lemma try_body_unchanged:
  assumes "unchanged W"
  shows "fst (try_body W gene st) = Normal \<longleftrightarrow> resolves W gene"
proof -
  have s: "fst (call_esearch W gene st) = fst (call_esearch W gene (initial []))"
    using assms by (simp add: unchanged_esearch)
  have f: "fst (call_efetch W i (snd (call_esearch W gene st))) =
      fst (call_efetch W i (snd (call_esearch W gene (initial []))))" for i
    using assms by (simp add: unchanged_efetch)
  have l: "isl (fst (check_loop W gene ids (ids ! 0) []
        (write_log (LogCandidates gene ids) (snd (call_esearch W gene st))))) =
      isl (fst (check_loop W gene ids (ids ! 0) []
        (write_log (LogCandidates gene ids) (snd (call_esearch W gene (initial []))))))" for ids
    using assms by (rule check_loop_unchanged)
  show ?thesis
    unfolding resolves_def try_body_Normal [of W gene st] try_body_Normal [of W gene "initial []"]
    by (simp only: s f l)
qed

lemma iteration_unchanged:
  assumes "unchanged W"
    and "dom (gene_id_dict st) \<subseteq> {g. resolves W g}"
    and "unresolved st \<subseteq> {g. \<not> resolves W g}"
  shows "dom (gene_id_dict (iteration W gene st)) \<subseteq> {g. resolves W g} \<and>
    unresolved (iteration W gene st) \<subseteq> {g. \<not> resolves W g}"
proof (cases rule: iteration_cases [where W = W and gene = gene and st = st])
  case (resolved i)
  then have "resolves W gene" using try_body_unchanged [OF assms(1), of gene st] by simp
  with resolved assms(2,3) show ?thesis by (auto simp: unresolved_def)
next
  case skipped
  then have "\<not> resolves W gene" using try_body_unchanged [OF assms(1), of gene st] by simp
  with skipped assms(2,3) show ?thesis by (auto simp: unresolved_def)
next
  case (discontinued i)
  then have "\<not> resolves W gene" using try_body_unchanged [OF assms(1), of gene st] by simp
  with discontinued assms(2,3) show ?thesis by (auto simp: unresolved_def)
next
  case (failed e)
  then have "\<not> resolves W gene" using try_body_unchanged [OF assms(1), of gene st] by simp
  with failed assms(2,3) show ?thesis by (auto simp: unresolved_def)
qed

lemma for_genes_unchanged:
  "unchanged W \<Longrightarrow> dom (gene_id_dict st) \<subseteq> {g. resolves W g} \<Longrightarrow>
   unresolved st \<subseteq> {g. \<not> resolves W g} \<Longrightarrow>
   dom (gene_id_dict (for_genes W genes st)) \<subseteq> {g. resolves W g} \<and>
   unresolved (for_genes W genes st) \<subseteq> {g. \<not> resolves W g}"
proof (induction genes arbitrary: st)
  case Nil
  then show ?case by simp
next
  case (Cons g genes)
  from iteration_unchanged [OF Cons.prems, of g]
  show ?case using Cons.IH [OF Cons.prems(1), of "iteration W g st"] by simp
qed

section \<open>C9: resolved and unresolved symbols\<close>

text \<open>
  C9, as amended. In a run that starts with empty files, if no symbol occurs twice in
  the input, or if the service answers every call of the run as it answers the first,
  then no symbol is both a key of the dictionary and recorded as unresolved (in
  \<^verbatim>\<open>genes_None.txt\<close> or in \<^verbatim>\<open>genes_NCBI_Discontinued_1.txt\<close>).
\<close>

theorem resolved_or_unresolved:
  assumes "distinct all_genes \<or> unchanged W"
  shows "dom (gene_id_dict (main W all_genes)) \<inter> unresolved (main W all_genes) = {}"
proof -
  have i: "dom (gene_id_dict (initial all_genes)) = {}" "unresolved (initial all_genes) = {}"
    by (simp_all add: initial_def unresolved_def)
  from assms show ?thesis
  proof
    assume "distinct all_genes"
    then show ?thesis
      unfolding main_def using i by (intro for_genes_disjoint [where D = "{}"]) simp_all
  next
    assume "unchanged W"
    from for_genes_unchanged [OF this, of "initial all_genes" all_genes] i
    show ?thesis unfolding main_def by auto
  qed
qed

theorem resolved_or_unresolved_witness:
  "distinct [''TP53'', ''X'', ''D'', ''FOO''] \<and> unchanged W_ncbi \<and>
   dom (gene_id_dict (main W_ncbi [''TP53'', ''X'', ''D'', ''FOO''])) \<inter>
     unresolved (main W_ncbi [''TP53'', ''X'', ''D'', ''FOO'']) = {} \<and>
   gene_id_dict (main W_ncbi [''TP53'', ''X'', ''D'', ''FOO'']) ''TP53'' = Some ''7157'' \<and>
   gene_id_dict (main W_ncbi [''TP53'', ''X'', ''D'', ''FOO'']) ''X'' = Some ''20'' \<and>
   genes_None (main W_ncbi [''TP53'', ''X'', ''D'', ''FOO'']) = [''FOO''] \<and>
   genes_NCBI_Discontinued_1 (main W_ncbi [''TP53'', ''X'', ''D'', ''FOO'']) = [(''D'', ''90'')]"
proof -
  have d: "distinct [''TP53'', ''X'', ''D'', ''FOO'']" by simp
  then have h: "distinct [''TP53'', ''X'', ''D'', ''FOO''] \<or> unchanged W_ncbi" by simp
  have e: "gene_id_dict (main W_ncbi [''TP53'', ''X'', ''D'', ''FOO'']) ''TP53'' = Some ''7157''"
    "gene_id_dict (main W_ncbi [''TP53'', ''X'', ''D'', ''FOO'']) ''X'' = Some ''20''"
    "genes_None (main W_ncbi [''TP53'', ''X'', ''D'', ''FOO'']) = [''FOO'']"
    "genes_NCBI_Discontinued_1 (main W_ncbi [''TP53'', ''X'', ''D'', ''FOO'']) = [(''D'', ''90'')]"
    by (simp_all add: run_simps ncbi_simps)
  from resolved_or_unresolved [OF h] d W_ncbi_unchanged e show ?thesis by blast
qed

lemma W_outage_esearch_up:
  "ncalls st < 2 \<Longrightarrow> call_esearch W_outage g st =
     (Returns (EsearchResult (ncbi_idlist g)),
      st\<lparr>ncalls := Suc (ncalls st), net := net st @ [HttpGet (ESearch g) 1]\<rparr>)"
  by (rule call_esearch_first) (simp add: W_outage_def)

lemma W_outage_efetch_up:
  "ncalls st < 2 \<Longrightarrow> call_efetch W_outage i st =
     (Returns (Xml (ncbi_record i)),
      st\<lparr>ncalls := Suc (ncalls st), net := net st @ [HttpGet (EFetch i) 1]\<rparr>)"
  by (rule call_efetch_first) (simp add: W_outage_def)

lemma W_outage_esearch_down:
  "2 \<le> ncalls st \<Longrightarrow> call_esearch W_outage g st =
     (Raises RetryError,
      st\<lparr>ncalls := Suc (ncalls st), net := net st @ attempts (ESearch g) 3 6 1\<rparr>)"
  using retry_from_exhausted [of 1 "esearch_attempt W_outage (ncalls st) g" 6 3 "ESearch g"]
  by (simp add: call_esearch_def retry_def W_outage_def)

text \<open>
  C9 as stated fails when a symbol occurs twice in the input and the service changes
  between the two occurrences: the first \<open>TP53\<close> is resolved, the second meets the
  outage, exhausts its retries and is written to \<^verbatim>\<open>genes_None.txt\<close>, while the
  dictionary keeps the entry of the first.
\<close>

theorem resolved_and_unresolved_counterexample:
  "gene_id_dict (main W_outage [''TP53'', ''TP53'']) ''TP53'' = Some ''7157'' \<and>
   genes_None (main W_outage [''TP53'', ''TP53'']) = [''TP53''] \<and>
   ''TP53'' \<in> dom (gene_id_dict (main W_outage [''TP53'', ''TP53''])) \<inter>
     unresolved (main W_outage [''TP53'', ''TP53''])"
proof -
  have "gene_id_dict (main W_outage [''TP53'', ''TP53'']) ''TP53'' = Some ''7157''"
    "genes_None (main W_outage [''TP53'', ''TP53'']) = [''TP53'']"
    by (simp_all add: run_simps W_outage_esearch_up W_outage_efetch_up W_outage_esearch_down
        ncbi_idlist_def ncbi_record_def gene_record_def)
  then show ?thesis by (auto simp: unresolved_def)
qed

end
